theory Spec2Isabelle
  imports Main
begin

section \<open>Community Sources: the multi-source feed aggregation server\<close>

text \<open>
  A shallow embedding of \<^verbatim>\<open>server/src/server.js\<close>: the token bucket protecting the
  Bluesky upstream, the tab patterns and their translation to a Mastodon search query,
  the TTL cache in front of the Nostr relay pool, the three fetchers and the
  \<^verbatim>\<open>/api/feed\<close> route. Upstream services are parameters of the model; exceptions are
  values of a sum type; \<^verbatim>\<open>Date.now()\<close> is an explicit integer argument (milliseconds).
\<close>

subsection \<open>JavaScript values used by the server\<close>

datatype js_error =
    TypeError
  | HttpError int
  | UpstreamError

text \<open>
  \<^verbatim>\<open>xs[i]\<close> on a JavaScript array with an integer index: the element when
  \<open>0 \<le> i < xs.length\<close>, \<^verbatim>\<open>undefined\<close> (here \<open>None\<close>) otherwise.
\<close>

definition js_index :: "'a list \<Rightarrow> int \<Rightarrow> 'a option" where
  "js_index xs i = (if 0 \<le> i \<and> i < int (length xs) then Some (xs ! nat i) else None)"

text \<open>
  Isabelle string literals cannot hold a backslash, so the regular expression sources
  below are written with \<open>%\<close> where the JavaScript source has a backslash;
  \<open>js_src\<close> puts the backslashes back.
\<close>

abbreviation BSLASH :: char where
  "BSLASH \<equiv> CHR 0x5C"

definition js_src :: "string \<Rightarrow> string" where
  "js_src s = map (\<lambda>c. if c = CHR ''%'' then BSLASH else c) s"

text \<open>Decimal rendering of an integer, as a template literal renders a Number.\<close>

definition digit_char :: "nat \<Rightarrow> char" where
  "digit_char d = ''0123456789'' ! d"

fun nat_digits :: "nat \<Rightarrow> string" where
  "nat_digits n = (if n < 10 then [digit_char n] else nat_digits (n div 10) @ [digit_char (n mod 10)])"

declare nat_digits.simps [simp del]

definition number_to_string :: "int \<Rightarrow> string" where
  "number_to_string i = (if i < 0 then CHR ''-'' # nat_digits (nat (- i)) else nat_digits (nat i))"

subsection \<open>Regular expressions of the tab patterns\<close>

text \<open>
  The tab patterns only use literal characters, escaped characters (\<^verbatim>\<open>\.\<close>, \<^verbatim>\<open>\/\<close>)
  and top-level alternation. A compiled pattern is the list of its alternatives, each
  a list of atoms; an unescaped dot matches any character but a line terminator. All
  patterns carry the flag \<^verbatim>\<open>i\<close>: ASCII letters are compared without case.
\<close>

datatype atom = Lit char | AnyChar

fun parse_alts :: "string \<Rightarrow> atom list \<Rightarrow> atom list list" where
  "parse_alts [] cur = [cur]"
| "parse_alts (c # cs) cur =
     (if c = CHR ''|'' then cur # parse_alts cs []
      else if c = BSLASH then
        (case cs of
           [] \<Rightarrow> [cur @ [Lit c]]
         | d # ds \<Rightarrow> parse_alts ds (cur @ [Lit d]))
      else if c = CHR ''.'' then parse_alts cs (cur @ [AnyChar])
      else parse_alts cs (cur @ [Lit c]))"

definition lower_char :: "char \<Rightarrow> char" where
  "lower_char c =
     (case map_of (zip ''ABCDEFGHIJKLMNOPQRSTUVWXYZ'' ''abcdefghijklmnopqrstuvwxyz'') c of
        Some d \<Rightarrow> d
      | None \<Rightarrow> c)"

fun atom_matches :: "atom \<Rightarrow> char \<Rightarrow> bool" where
  "atom_matches (Lit c) d = (lower_char c = lower_char d)"
| "atom_matches AnyChar d = (d \<noteq> CHR 0x0A \<and> d \<noteq> CHR 0x0D)"

fun match_here :: "atom list \<Rightarrow> string \<Rightarrow> bool" where
  "match_here [] s = True"
| "match_here (a # as) [] = False"
| "match_here (a # as) (c # cs) = (atom_matches a c \<and> match_here as cs)"

fun search_alts :: "atom list list \<Rightarrow> string \<Rightarrow> bool" where
  "search_alts alts [] = list_ex (\<lambda>alt. match_here alt []) alts"
| "search_alts alts (c # cs) =
     (list_ex (\<lambda>alt. match_here alt (c # cs)) alts \<or> search_alts alts cs)"

text \<open>
  \<^verbatim>\<open>new RegExp(source, 'i')\<close>: a compiled pattern is represented by its source;
  \<open>regex_test\<close> is \<^verbatim>\<open>RegExp.prototype.test\<close> (no \<^verbatim>\<open>g\<close> flag, so no match state).
\<close>

definition regex_test :: "string \<Rightarrow> string \<Rightarrow> bool" where
  "regex_test source text = search_alts (parse_alts source []) text"

definition nostrSearchPatterns :: "string list" where
  "nostrSearchPatterns = map js_src
    [''%.gov%/|bea%.gov|stlouisfed%.org|worldbank%.org|bls%.gov|imf%.org|oecd%.org|europa%.eu%/eurostat|unstats%.un%.org|arxiv%.org|nih%.gov|nasa%.gov|science%.org|cell%.com|pnas%.org'',
     ''%.gov%/'',
     ''bea%.gov|stlouisfed%.org|worldbank%.org|bls%.gov|imf%.org|oecd%.org|europa%.eu%/eurostat|unstats%.un%.org'',
     ''arxiv%.org|nih%.gov|nasa%.gov|science%.org|cell%.com|pnas%.org'',
     ''imdb%.com|rottentomatoes%.com|netflix%.com|hulu%.com|amazon%.com%/gp%/video%/|play%.max%.com'',
     ''podcasts%.apple%.com|open%.spotify%.com%/episode%/|open%.spotify%.com%/show%/'',
     ''spotify%.com%/artist|spotify%.com%/track|spotify%.com%/album|music%.apple%.com|soundcloud%.com'']"

definition feedLinks :: "string list" where
  "feedLinks =
    [''at://did:plc:hd4p7hmwqy3egilcv6lgjpzf/app.bsky.feed.generator/aaap7msb6vmdg'',
     ''at://did:plc:hd4p7hmwqy3egilcv6lgjpzf/app.bsky.feed.generator/aaap7i2f6e3kq'',
     ''at://did:plc:hd4p7hmwqy3egilcv6lgjpzf/app.bsky.feed.generator/aaacsjo76q5g4'',
     ''at://did:plc:hd4p7hmwqy3egilcv6lgjpzf/app.bsky.feed.generator/aaab4n3ofdehe'',
     ''at://did:plc:hd4p7hmwqy3egilcv6lgjpzf/app.bsky.feed.generator/aaaburmrbef3k'',
     ''at://did:plc:hd4p7hmwqy3egilcv6lgjpzf/app.bsky.feed.generator/aaab4xs76ypte'',
     ''at://did:plc:hd4p7hmwqy3egilcv6lgjpzf/app.bsky.feed.generator/aaabut5jyrc6c'',
     ''at://did:plc:hd4p7hmwqy3egilcv6lgjpzf/app.bsky.feed.generator/gggp7i2f6e3kq'']"

text \<open>
  The classifier of a tab on a content string:
  \<^verbatim>\<open>nostrSearchPatterns[tabIndex].test(content)\<close>, false when the tab has no pattern.
\<close>

definition tab_matches :: "int \<Rightarrow> string \<Rightarrow> bool" where
  "tab_matches tabIndex text =
     (case js_index nostrSearchPatterns tabIndex of
        None \<Rightarrow> False
      | Some pat \<Rightarrow> regex_test pat text)"

subsection \<open>The search query of the Mastodon fetcher\<close>

text \<open>\<^verbatim>\<open>s.replace(/\\\./g, '.')\<close>: every backslash-dot pair, left to right, becomes a dot.\<close>

fun replace_escaped_dots :: "string \<Rightarrow> string" where
  "replace_escaped_dots (a # b # cs) =
     (if a = BSLASH \<and> b = CHR ''.'' then CHR ''.'' # replace_escaped_dots cs
      else a # replace_escaped_dots (b # cs))"
| "replace_escaped_dots cs = cs"

text \<open>\<^verbatim>\<open>s.replace(/\|/g, ' OR ')\<close>.\<close>

fun replace_bars :: "string \<Rightarrow> string" where
  "replace_bars [] = []"
| "replace_bars (c # cs) =
     (if c = CHR ''|'' then '' OR '' @ replace_bars cs else c # replace_bars cs)"

definition searchQuery :: "string \<Rightarrow> string" where
  "searchQuery source = replace_bars (replace_escaped_dots source)"

subsection \<open>The token bucket\<close>

record tokenBucket =
  tokens :: int
  lastRefill :: int
  refillRate :: int
  capacity :: int

text \<open>The bucket as the module creates it at time \<open>t0\<close>.\<close>

definition initialBucket :: "int \<Rightarrow> tokenBucket" where
  "initialBucket t0 = \<lparr>tokens = 5, lastRefill = t0, refillRate = 60000, capacity = 5\<rparr>"

text \<open>
  \<^verbatim>\<open>getToken()\<close> at time \<open>now\<close>: the result and the bucket afterwards.
  \<^verbatim>\<open>Math.floor(a / b)\<close> on integers is \<open>div\<close> on \<open>int\<close>, which rounds down.
\<close>

definition getToken :: "int \<Rightarrow> tokenBucket \<Rightarrow> bool \<times> tokenBucket" where
  "getToken now b =
     (let timeSinceLastRefill = now - lastRefill b;
          refillAmount = timeSinceLastRefill div refillRate b;
          b1 = (if refillAmount > 0
                then b\<lparr>tokens := min (capacity b) (tokens b + refillAmount), lastRefill := now\<rparr>
                else b)
      in if tokens b1 > 0 then (True, b1\<lparr>tokens := tokens b1 - 1\<rparr>) else (False, b1))"

text \<open>
  A sequence of calls at the given times: for each call the bucket before, the result
  and the bucket after.
\<close>

fun getToken_trace :: "int list \<Rightarrow> tokenBucket \<Rightarrow> (tokenBucket \<times> bool \<times> tokenBucket) list" where
  "getToken_trace [] b = []"
| "getToken_trace (now # ts) b =
     (let (r, b') = getToken now b in (b, r, b') # getToken_trace ts b')"

definition getToken_results :: "int list \<Rightarrow> tokenBucket \<Rightarrow> bool list" where
  "getToken_results ts b = map (\<lambda>(pre, r, post). r) (getToken_trace ts b)"

text \<open>The bucket after a sequence of calls.\<close>

fun getToken_run :: "int list \<Rightarrow> tokenBucket \<Rightarrow> tokenBucket" where
  "getToken_run [] b = b"
| "getToken_run (now # ts) b = getToken_run ts (snd (getToken now b))"

text \<open>The invariant of the bucket under the constants of the module.\<close>

definition bucket_ok :: "tokenBucket \<Rightarrow> bool" where
  "bucket_ok b = (0 \<le> tokens b \<and> tokens b \<le> capacity b \<and> capacity b = 5 \<and> refillRate b = 60000)"


subsection \<open>The result cache\<close>

text \<open>
  Modelled from the spec: the class \<^verbatim>\<open>NodeCache\<close> of the package node-cache, which
  \<^verbatim>\<open>nostrCache\<close> instantiates with \<^verbatim>\<open>stdTTL: 600\<close>, is not among the sources of the
  repository. The spec gives its contract: an entry is a value with an expiry instant; \<open>set(key, value, ttlSeconds)\<close>
  stores the value, with the default TTL of 600 seconds when none is given; \<open>get(key)\<close>
  returns the value of an entry that has not expired and behaves as a miss on an expired
  one; expiry is passive, an entry stays until it is replaced. Times are in milliseconds,
  as \<^verbatim>\<open>Date.now()\<close> gives them.
\<close>

record 'v cache_entry =
  entry_value :: 'v
  expires_at :: int

type_synonym 'v node_cache = "string \<Rightarrow> 'v cache_entry option"

definition stdTTL :: int where
  "stdTTL = 600"

text \<open>
  Modelled from the spec: \<^verbatim>\<open>NodeCache.set\<close> (missing from the sources), called at time
  \<open>now\<close>. The entry expires \<open>ttlSeconds\<close> seconds later.
\<close>

definition cache_set :: "int \<Rightarrow> string \<Rightarrow> 'v \<Rightarrow> int \<Rightarrow> 'v node_cache \<Rightarrow> 'v node_cache" where
  "cache_set now key val ttlSeconds c =
     c(key \<mapsto> \<lparr>entry_value = val, expires_at = now + ttlSeconds * 1000\<rparr>)"

text \<open>
  Modelled from the spec: \<^verbatim>\<open>NodeCache.get\<close> (missing from the sources), called at time
  \<open>now\<close>. An entry is returned up to its expiry instant and is a miss past it.
\<close>

definition cache_get :: "int \<Rightarrow> string \<Rightarrow> 'v node_cache \<Rightarrow> 'v option" where
  "cache_get now key c =
     (case c key of
        None \<Rightarrow> None
      | Some e \<Rightarrow> if expires_at e < now then None else Some (entry_value e))"

subsection \<open>The Nostr fetcher\<close>

record nostr_event =
  ev_id :: string
  ev_pubkey :: string
  ev_content :: string
  ev_created_at :: int
  ev_tags :: "string list list"

record nostr_post =
  np_id :: string
  np_pubkey :: string
  np_content :: string
  np_created_at :: int
  np_tags :: "string list list"
  np_npub :: string

text \<open>
  What the outside does during one uncached call: whether \<^verbatim>\<open>pool.sub\<close> throws, the
  events the relays deliver before the 10 second timer fires (in order of arrival),
  \<^verbatim>\<open>nip19.npubEncode\<close> (\<open>None\<close> where it throws), and \<^verbatim>\<open>Date.now()\<close> when
  \<^verbatim>\<open>nostrCache.set\<close> runs.
\<close>

record nostr_world =
  sub_throws :: bool
  delivered :: "nostr_event list"
  npubEncode :: "string \<Rightarrow> string option"
  set_time :: int

record nostr_outcome =
  nostr_result :: "nostr_post list"
  nostr_cache :: "nostr_post list node_cache"
  subscriptions :: nat

definition cacheKey :: "int \<Rightarrow> string" where
  "cacheKey activeTab = ''nostr_'' @ number_to_string activeTab"

text \<open>
  The \<^verbatim>\<open>'event'\<close> listener. For a tab without a pattern the test raises a TypeError
  inside the relay pool's dispatch, outside the promise of the fetcher: nothing is
  pushed.
\<close>

definition on_event :: "int \<Rightarrow> nostr_event list \<Rightarrow> nostr_event \<Rightarrow> nostr_event list" where
  "on_event activeTab collectedEvents event =
     (case js_index nostrSearchPatterns activeTab of
        None \<Rightarrow> collectedEvents
      | Some pat \<Rightarrow>
          if regex_test pat (ev_content event) then collectedEvents @ [event]
          else collectedEvents)"

fun process_events :: "(string \<Rightarrow> string option) \<Rightarrow> nostr_event list \<Rightarrow> js_error + nostr_post list" where
  "process_events enc [] = Inr []"
| "process_events enc (event # events) =
     (case enc (ev_pubkey event) of
        None \<Rightarrow> Inl UpstreamError
      | Some npub \<Rightarrow>
          (case process_events enc events of
             Inl err \<Rightarrow> Inl err
           | Inr rest \<Rightarrow>
               Inr (\<lparr>np_id = ev_id event, np_pubkey = ev_pubkey event,
                      np_content = ev_content event, np_created_at = ev_created_at event,
                      np_tags = ev_tags event, np_npub = npub\<rparr> # rest)))"

text \<open>
  \<^verbatim>\<open>fetchNostrPosts(activeTab)\<close> called at time \<open>now\<close>. A cached array is truthy even
  when empty, so \<^verbatim>\<open>if (cachedResult)\<close> holds exactly on a hit. After a miss the store is
  made here on the cache of the lookup, as when no other call stores during the
  collection window; \<open>nostr_complete\<close> below is the same code on the cache of that moment.
\<close>

definition fetchNostrPosts ::
  "int \<Rightarrow> int \<Rightarrow> nostr_world \<Rightarrow> nostr_post list node_cache \<Rightarrow> nostr_outcome" where
  "fetchNostrPosts activeTab now w cache =
     (case cache_get now (cacheKey activeTab) cache of
        Some cachedResult \<Rightarrow>
          \<lparr>nostr_result = cachedResult, nostr_cache = cache, subscriptions = 0\<rparr>
      | None \<Rightarrow>
          if sub_throws w then \<lparr>nostr_result = [], nostr_cache = cache, subscriptions = 0\<rparr>
          else
            (case process_events (npubEncode w) (foldl (on_event activeTab) [] (delivered w)) of
               Inl err \<Rightarrow> \<lparr>nostr_result = [], nostr_cache = cache, subscriptions = 1\<rparr>
             | Inr processedEvents \<Rightarrow>
                 \<lparr>nostr_result = processedEvents,
                  nostr_cache =
                    cache_set (set_time w) (cacheKey activeTab) processedEvents stdTTL cache,
                  subscriptions = 1\<rparr>))"

text \<open>
  Between the cache lookup and the store, \<^verbatim>\<open>fetchNostrPosts\<close> awaits the 10 second timer,
  and other requests run meanwhile. \<open>nostr_complete\<close> is the call after a miss, from the
  subscription to the return, on the cache as it is when \<^verbatim>\<open>nostrCache.set\<close> runs; on the
  cache of the lookup it is the miss branch of \<open>fetchNostrPosts\<close>.
\<close>

definition nostr_complete ::
  "int \<Rightarrow> nostr_world \<Rightarrow> nostr_post list node_cache \<Rightarrow> nostr_outcome" where
  "nostr_complete activeTab w cache =
     (if sub_throws w then \<lparr>nostr_result = [], nostr_cache = cache, subscriptions = 0\<rparr>
      else
        (case process_events (npubEncode w) (foldl (on_event activeTab) [] (delivered w)) of
           Inl err \<Rightarrow> \<lparr>nostr_result = [], nostr_cache = cache, subscriptions = 1\<rparr>
         | Inr processedEvents \<Rightarrow>
             \<lparr>nostr_result = processedEvents,
              nostr_cache =
                cache_set (set_time w) (cacheKey activeTab) processedEvents stdTTL cache,
              subscriptions = 1\<rparr>))"

text \<open>
  The cache under overlapping requests. A lookup never changes the cache, and a hit
  returns at once; so the cache only changes when a call that missed, at whatever time,
  reaches its store. The list gives those calls (tab and outside world) in the order in
  which they complete.
\<close>

fun nostr_completions ::
  "(int \<times> nostr_world) list \<Rightarrow> nostr_post list node_cache \<Rightarrow> nostr_post list node_cache" where
  "nostr_completions [] cache = cache"
| "nostr_completions ((activeTab, w) # rest) cache =
     nostr_completions rest (nostr_cache (nostr_complete activeTab w cache))"

text \<open>Every list cached for a tab holds only posts that match the tab's pattern.\<close>

definition cache_classified :: "nostr_post list node_cache \<Rightarrow> bool" where
  "cache_classified c =
     (\<forall>tab e. c (cacheKey tab) = Some e \<longrightarrow> list_all (\<lambda>p. tab_matches tab (np_content p)) (entry_value e))"

subsection \<open>The Mastodon fetcher\<close>

record mastodon_account =
  acct_username :: string
  acct_display_name :: string

text \<open>A status of the upstream; \<open>st_account = None\<close> is a status without an account object.\<close>

record mastodon_status =
  st_id :: string
  st_content :: string
  st_created_at :: string
  st_account :: "mastodon_account option"
  st_url :: string

record mastodon_post =
  mp_id :: string
  mp_content :: string
  mp_createdAt :: string
  mp_username :: string
  mp_displayName :: string
  mp_url :: string

record search_request =
  rq_q :: string
  rq_type :: string
  rq_limit :: nat
  rq_max_id :: "string option"

text \<open>
  The body of a response as \<^verbatim>\<open>response.json()\<close> gives it: not JSON (the call throws), a
  falsy value, an object without \<^verbatim>\<open>statuses\<close>, or an object with a list of statuses.
  A response is a rejected \<^verbatim>\<open>fetch\<close> or a status code with a body.
\<close>

datatype search_body = InvalidJson | NoData | NoStatuses | Statuses "mastodon_status list"

datatype search_response = FetchRejected | Response int search_body

definition response_ok :: "int \<Rightarrow> bool" where
  "response_ok code = (200 \<le> code \<and> code \<le> 299)"

definition postsPerPage :: nat where
  "postsPerPage = 40"

definition maxPages :: nat where
  "maxPages = 10"

text \<open>\<^verbatim>\<open>...(maxId && { max_id: maxId })\<close>: \<^verbatim>\<open>null\<close> and the empty string are falsy.\<close>

definition max_id_param :: "string option \<Rightarrow> string option" where
  "max_id_param maxId = (case maxId of None \<Rightarrow> None | Some i \<Rightarrow> if i = [] then None else Some i)"

datatype page_outcome =
    Thrown js_error
  | Break "mastodon_status list"
  | NextPage "string option" "mastodon_status list"

text \<open>The body of the loop after the request: what one response does to the loop.\<close>

definition page_step :: "string \<Rightarrow> mastodon_status list \<Rightarrow> search_response \<Rightarrow> page_outcome" where
  "page_step searchPattern allPosts response =
     (case response of
        FetchRejected \<Rightarrow> Thrown UpstreamError
      | Response code body \<Rightarrow>
          if \<not> response_ok code then Thrown (HttpError code)
          else
            (case body of
               InvalidJson \<Rightarrow> Thrown UpstreamError
             | NoData \<Rightarrow> Break allPosts
             | NoStatuses \<Rightarrow> Break allPosts
             | Statuses statuses \<Rightarrow>
                 if length statuses = 0 then Break allPosts
                 else
                   (let filteredPosts =
                          filter (\<lambda>post. regex_test searchPattern (st_content post)) statuses;
                        allPosts' = allPosts @ filteredPosts
                    in if length statuses < postsPerPage then Break allPosts'
                       else NextPage (Some (st_id (last statuses))) allPosts')))"

text \<open>
  The \<^verbatim>\<open>for\<close> loop from \<open>page\<close> on. The upstream is a function of the number of the
  request within the call and the request. The result is the list of requests issued
  and either the exception that left the loop or \<^verbatim>\<open>allPosts\<close>.
\<close>

function pages_loop ::
  "(nat \<Rightarrow> search_request \<Rightarrow> search_response) \<Rightarrow> string \<Rightarrow> string \<Rightarrow> nat \<Rightarrow> string option \<Rightarrow>
     mastodon_status list \<Rightarrow> search_request list \<times> (js_error + mastodon_status list)" where
  "pages_loop upstream searchPattern searchQ page maxId allPosts =
     (if page < maxPages then
        (let params = \<lparr>rq_q = searchQ, rq_type = ''statuses'', rq_limit = postsPerPage,
                        rq_max_id = max_id_param maxId\<rparr>
         in case page_step searchPattern allPosts (upstream page params) of
              Thrown err \<Rightarrow> ([params], Inl err)
            | Break posts \<Rightarrow> ([params], Inr posts)
            | NextPage maxId' posts \<Rightarrow>
                (case pages_loop upstream searchPattern searchQ (page + 1) maxId' posts of
                   (requests, r) \<Rightarrow> (params # requests, r)))
      else ([], Inr allPosts))"
  by pat_completeness auto
termination
  by (relation "measure (\<lambda>(upstream, searchPattern, searchQ, page, maxId, allPosts). maxPages - page)") auto

declare pages_loop.simps [simp del]

fun process_statuses :: "mastodon_status list \<Rightarrow> js_error + mastodon_post list" where
  "process_statuses [] = Inr []"
| "process_statuses (post # posts) =
     (case st_account post of
        None \<Rightarrow> Inl TypeError
      | Some account \<Rightarrow>
          (case process_statuses posts of
             Inl err \<Rightarrow> Inl err
           | Inr rest \<Rightarrow>
               Inr (\<lparr>mp_id = st_id post, mp_content = st_content post,
                      mp_createdAt = st_created_at post, mp_username = acct_username account,
                      mp_displayName = acct_display_name account, mp_url = st_url post\<rparr> # rest)))"

text \<open>
  \<^verbatim>\<open>fetchMastodonPosts(activeTab)\<close>: the requests issued, and the exception the call
  rejects with (\<open>Inl\<close>) or the list it resolves to (\<open>Inr\<close>). The pattern lookup and
  \<^verbatim>\<open>searchPattern.source\<close> stand before the \<^verbatim>\<open>try\<close>; everything else is inside it.
\<close>

definition fetchMastodonPosts ::
  "int \<Rightarrow> (nat \<Rightarrow> search_request \<Rightarrow> search_response) \<Rightarrow>
     search_request list \<times> (js_error + mastodon_post list)" where
  "fetchMastodonPosts activeTab upstream =
     (case js_index nostrSearchPatterns activeTab of
        None \<Rightarrow> ([], Inl TypeError)
      | Some searchPattern \<Rightarrow>
          (case pages_loop upstream searchPattern (searchQuery searchPattern) 0 None [] of
             (requests, Inl err) \<Rightarrow> (requests, Inr [])
           | (requests, Inr allPosts) \<Rightarrow>
               (case process_statuses allPosts of
                  Inl err \<Rightarrow> (requests, Inr [])
                | Inr processedPosts \<Rightarrow> (requests, Inr processedPosts))))"

text \<open>The response to the \<open>k\<close>-th request of a call (counted from 0).\<close>

definition response_at ::
  "int \<Rightarrow> (nat \<Rightarrow> search_request \<Rightarrow> search_response) \<Rightarrow> nat \<Rightarrow> search_response" where
  "response_at activeTab upstream k = upstream k (fst (fetchMastodonPosts activeTab upstream) ! k)"

definition page_size :: "search_response \<Rightarrow> nat option" where
  "page_size response =
     (case response of
        Response code (Statuses statuses) \<Rightarrow> if response_ok code then Some (length statuses) else None
      | _ \<Rightarrow> None)"

subsection \<open>The Bluesky fetcher\<close>

datatype segment = LinkSegment string | MentionSegment string string | TextSegment string

text \<open>
  A feed item: the text of its record, the segments \<^verbatim>\<open>RichText\<close> yields after
  \<^verbatim>\<open>detectFacets\<close> (\<open>None\<close> when that throws), and the facets and embed of the record.
\<close>

record bsky_item =
  item_text :: string
  item_segments :: "segment list option"
  item_facets :: string
  item_embed :: string

record bsky_post =
  bp_item :: bsky_item
  bp_markdown :: string

text \<open>
  The upstream: whether \<^verbatim>\<open>agent.login\<close> succeeds, and \<^verbatim>\<open>getFeed\<close> on a feed reference
  (\<open>None\<close> for \<^verbatim>\<open>undefined\<close>), a limit and the \<^verbatim>\<open>Accept-Language\<close> header, \<open>None\<close> when it
  throws.
\<close>

record bsky_world =
  login_ok :: bool
  getFeed :: "string option \<Rightarrow> nat \<Rightarrow> string \<Rightarrow> bsky_item list option"

fun segment_markdown :: "segment \<Rightarrow> string" where
  "segment_markdown (LinkSegment uri) = uri"
| "segment_markdown (MentionSegment text did) =
     ''['' @ text @ ''](https://my-bsky-app.com/user/'' @ did @ '')''"
| "segment_markdown (TextSegment text) = text"

fun process_items :: "bsky_item list \<Rightarrow> bsky_post list option" where
  "process_items [] = Some []"
| "process_items (item # items) =
     (case item_segments item of
        None \<Rightarrow> None
      | Some segs \<Rightarrow>
          (case process_items items of
             None \<Rightarrow> None
           | Some rest \<Rightarrow>
               Some (\<lparr>bp_item = item, bp_markdown = concat (map segment_markdown segs)\<rparr> # rest)))"

definition fetchBlueskyPosts ::
  "int \<Rightarrow> string \<Rightarrow> int \<Rightarrow> bsky_world \<Rightarrow> tokenBucket \<Rightarrow> bsky_post list \<times> tokenBucket" where
  "fetchBlueskyPosts activeTab preferredLanguages now w bucket =
     (case getToken now bucket of
        (False, bucket') \<Rightarrow> ([], bucket')
      | (True, bucket') \<Rightarrow>
          if \<not> login_ok w then ([], bucket')
          else
            (case getFeed w (js_index feedLinks activeTab) 50 preferredLanguages of
               None \<Rightarrow> ([], bucket')
             | Some postsArray \<Rightarrow>
                 (case process_items postsArray of
                    None \<Rightarrow> ([], bucket')
                  | Some processedPosts \<Rightarrow> (processedPosts, bucket'))))"

subsection \<open>The feed route\<close>

record server_state =
  bucket :: tokenBucket
  cache :: "nostr_post list node_cache"

record feed_world =
  clock :: int
  bluesky :: bsky_world
  nostr :: nostr_world
  mastodon :: "nat \<Rightarrow> search_request \<Rightarrow> search_response"

datatype feed_response =
    Feed200 "bsky_post list" "nostr_post list" "mastodon_post list"
  | Error500 js_error

text \<open>
  \<^verbatim>\<open>GET /api/feed\<close>. The arguments are \<^verbatim>\<open>parseInt(req.query.activeTab)\<close> (\<open>None\<close> for
  NaN) and \<^verbatim>\<open>req.query.preferredLanguages\<close> (\<open>None\<close> when absent). The three fetchers
  are started in order; \<^verbatim>\<open>Promise.all\<close> rejects, and the handler answers 500, when one
  of them rejects.
\<close>

definition feedRoute ::
  "int option \<Rightarrow> string option \<Rightarrow> feed_world \<Rightarrow> server_state \<Rightarrow> feed_response \<times> server_state" where
  "feedRoute parsedTab languages w s =
     (let activeTab = (case parsedTab of None \<Rightarrow> 0 | Some n \<Rightarrow> if n = 0 then 0 else n);
          preferredLanguages =
            (case languages of None \<Rightarrow> ''en-US'' | Some l \<Rightarrow> if l = [] then ''en-US'' else l);
          (blueskyFeed, bucket') = fetchBlueskyPosts activeTab preferredLanguages (clock w) (bluesky w) (bucket s);
          nostrOut = fetchNostrPosts activeTab (clock w) (nostr w) (cache s);
          s' = \<lparr>bucket = bucket', cache = nostr_cache nostrOut\<rparr>
      in case snd (fetchMastodonPosts activeTab (mastodon w)) of
           Inl err \<Rightarrow> (Error500 err, s')
         | Inr mastodonFeed \<Rightarrow> (Feed200 blueskyFeed (nostr_result nostrOut) mastodonFeed, s'))"

subsection \<open>Example inputs\<close>

definition quiet_world :: nostr_world where
  "quiet_world = \<lparr>sub_throws = False, delivered = [], npubEncode = (\<lambda>k. Some (''npub1'' @ k)), set_time = 10000\<rparr>"

definition post1 :: nostr_post where
  "post1 = \<lparr>np_id = ''e1'', np_pubkey = ''ab'', np_content = ''see nasa.gov/x'', np_created_at = 1, np_tags = [], np_npub = ''npub1ab''\<rparr>"

definition chatter_event :: nostr_event where
  "chatter_event = \<lparr>ev_id = ''e0'', ev_pubkey = ''cd'', ev_content = ''good morning'', ev_created_at = 5, ev_tags = []\<rparr>"

definition science_event :: nostr_event where
  "science_event = \<lparr>ev_id = ''e1'', ev_pubkey = ''ab'', ev_content = ''new paper on arXiv.org today'', ev_created_at = 6, ev_tags = []\<rparr>"

definition relay_world :: "nostr_event list \<Rightarrow> int \<Rightarrow> nostr_world" where
  "relay_world events t = \<lparr>sub_throws = False, delivered = events, npubEncode = (\<lambda>k. Some (''npub1'' @ k)), set_time = t\<rparr>"

definition search_params :: "string \<Rightarrow> string option \<Rightarrow> search_request" where
  "search_params q maxId =
     \<lparr>rq_q = q, rq_type = ''statuses'', rq_limit = postsPerPage, rq_max_id = max_id_param maxId\<rparr>"

definition page_continues :: "search_response \<Rightarrow> bool" where
  "page_continues resp = (case page_size resp of None \<Rightarrow> False | Some n \<Rightarrow> postsPerPage \<le> n)"

definition request_failed :: "search_response \<Rightarrow> bool" where
  "request_failed response =
     (case response of FetchRejected \<Rightarrow> True | Response code body \<Rightarrow> \<not> response_ok code)"

definition gov_status :: mastodon_status where
  "gov_status = \<lparr>st_id = ''110'', st_content = ''<p>data.gov/x</p>'', st_created_at = ''2024-05-01'',
     st_account = Some \<lparr>acct_username = ''ann'', acct_display_name = ''Ann''\<rparr>, st_url = ''https://mastodon.social/@ann/110''\<rparr>"

definition full_then_error :: "nat \<Rightarrow> search_request \<Rightarrow> search_response" where
  "full_then_error k r = (if k = 0 then Response 200 (Statuses (replicate 40 gov_status)) else Response 500 NoData)"

definition nine_full_then_five :: "nat \<Rightarrow> search_request \<Rightarrow> search_response" where
  "nine_full_then_five k r =
     (if k < 9 then Response 200 (Statuses (replicate 40 gov_status))
      else Response 200 (Statuses (replicate 5 gov_status)))"

definition empty_upstream :: "nat \<Rightarrow> search_request \<Rightarrow> search_response" where
  "empty_upstream k r = Response 200 (Statuses [])"

definition plain_item :: bsky_item where
  "plain_item = \<lparr>item_text = ''hello'', item_segments = Some [TextSegment ''hello''], item_facets = [], item_embed = []\<rparr>"

definition open_feed :: bsky_world where
  "open_feed = \<lparr>login_ok = True, getFeed = (\<lambda>feed limit languages. Some [plain_item])\<rparr>"

definition example_world :: feed_world where
  "example_world = \<lparr>clock = 0, bluesky = open_feed, nostr = relay_world [] 10000, mastodon = empty_upstream\<rparr>"

definition initial_state :: server_state where
  "initial_state = \<lparr>bucket = initialBucket 0, cache = Map.empty\<rparr>"

section \<open>Properties\<close>

subsection \<open>Token bucket\<close>

lemma bucket_ok_initial: "bucket_ok (initialBucket t0)"
  by (simp add: bucket_ok_def initialBucket_def)

lemma getToken_keeps_ok: "bucket_ok b \<Longrightarrow> bucket_ok (snd (getToken now b))"
  by (auto simp: bucket_ok_def getToken_def Let_def)

lemma getToken_refused_unchanged:
  "bucket_ok b \<Longrightarrow> \<not> fst (getToken now b) \<Longrightarrow> snd (getToken now b) = b"
  by (auto simp: bucket_ok_def getToken_def Let_def split: if_splits)

lemma getToken_trace_ok:
  "bucket_ok b \<Longrightarrow> (pre, r, post) \<in> set (getToken_trace ts b) \<Longrightarrow>
     bucket_ok pre \<and> bucket_ok post \<and> (\<not> r \<longrightarrow> post = pre)"
proof (induction ts arbitrary: b)
  case Nil
  then show ?case by simp
next
  case (Cons now ts)
  obtain r' b' where g: "getToken now b = (r', b')" by (cases "getToken now b")
  have ok': "bucket_ok b'" using getToken_keeps_ok [OF Cons.prems(1), of now] g by simp
  from Cons.prems(2) g consider "(pre, r, post) = (b, r', b')" | "(pre, r, post) \<in> set (getToken_trace ts b')"
    by auto
  then show ?case
  proof cases
    case 1
    then show ?thesis
      using Cons.prems(1) ok' getToken_refused_unchanged [OF Cons.prems(1), of now] g by auto
  next
    case 2
    then show ?thesis using Cons.IH [OF ok'] by simp
  qed
qed

text \<open>
  Claim C8. Whatever the times of the calls, after every call of a sequence started on the
  initial bucket the token count lies between 0 and the capacity 5, and a call that
  returns false leaves the whole bucket (tokens and refill baseline) as it was.
\<close>

theorem getToken_bounded_and_refusal_pure:
  "\<forall>(pre, r, post) \<in> set (getToken_trace ts (initialBucket t0)).
      0 \<le> tokens post \<and> tokens post \<le> 5 \<and> tokens post \<le> capacity post \<and> (\<not> r \<longrightarrow> post = pre)"
  using getToken_trace_ok [OF bucket_ok_initial] by (fastforce simp: bucket_ok_def)

theorem getToken_bounded_and_refusal_pure_witness:
  "(initialBucket 0\<lparr>tokens := 0\<rparr>, False, initialBucket 0\<lparr>tokens := 0\<rparr>)
      \<in> set (getToken_trace [0, 0, 0, 0, 0, 0] (initialBucket 0))
   \<and> 0 \<le> tokens (initialBucket 0\<lparr>tokens := 0\<rparr>)
   \<and> tokens (initialBucket 0\<lparr>tokens := 0\<rparr>) \<le> 5"
  using getToken_bounded_and_refusal_pure [of "[0, 0, 0, 0, 0, 0]" 0]
  by (simp add: getToken_def initialBucket_def)

lemma getToken_results_append:
  "getToken_results (xs @ ys) b = getToken_results xs b @ getToken_results ys (getToken_run xs b)"
  by (induction xs arbitrary: b) (auto simp: getToken_results_def split: prod.splits)

lemma getToken_results_Cons:
  "getToken_results (t # ts) b = fst (getToken t b) # getToken_results ts (snd (getToken t b))"
  by (simp add: getToken_results_def split: prod.splits)

lemma getToken_immediate:
  "refillRate b = 60000 \<Longrightarrow> now - lastRefill b < 60000 \<Longrightarrow>
     getToken now b = (if tokens b > 0 then (True, b\<lparr>tokens := tokens b - 1\<rparr>) else (False, b))"
proof -
  assume r: "refillRate b = 60000" and e: "now - lastRefill b < 60000"
  from e have "\<not> 0 < (now - lastRefill b) div 60000" by (simp add: pos_imp_zdiv_pos_iff)
  with r show ?thesis by (simp add: getToken_def Let_def)
qed

lemma drain_results:
  "refillRate b = 60000 \<Longrightarrow> 0 \<le> tokens b \<Longrightarrow> \<forall>t\<in>set ts. t - lastRefill b < 60000 \<Longrightarrow>
     getToken_results ts b = map (\<lambda>i. int i < tokens b) [0..<length ts]"
proof (induction ts arbitrary: b)
  case Nil
  then show ?case by (simp add: getToken_results_def)
next
  case (Cons t ts)
  have imm: "getToken t b = (if tokens b > 0 then (True, b\<lparr>tokens := tokens b - 1\<rparr>) else (False, b))"
    using Cons.prems by (simp add: getToken_immediate)
  show ?case
  proof (cases "tokens b > 0")
    case True
    let ?b' = "b\<lparr>tokens := tokens b - 1\<rparr>"
    have "getToken_results ts ?b' = map (\<lambda>i. int i < tokens ?b') [0..<length ts]"
      using Cons.prems True by (intro Cons.IH) auto
    then show ?thesis using True imm
      by (auto simp: getToken_results_Cons map_upt_Suc simp del: upt_Suc)
  next
    case False
    have "getToken_results ts b = map (\<lambda>i. int i < tokens b) [0..<length ts]"
      using Cons.prems by (intro Cons.IH) auto
    then show ?thesis using False imm
      by (simp add: getToken_results_Cons map_upt_Suc del: upt_Suc)
  qed
qed

lemma drain_run:
  "refillRate b = 60000 \<Longrightarrow> 0 \<le> tokens b \<Longrightarrow> \<forall>t\<in>set ts. t - lastRefill b < 60000 \<Longrightarrow>
     getToken_run ts b = b\<lparr>tokens := max 0 (tokens b - int (length ts))\<rparr>"
proof (induction ts arbitrary: b)
  case Nil
  then show ?case by simp
next
  case (Cons t ts)
  have imm: "getToken t b = (if tokens b > 0 then (True, b\<lparr>tokens := tokens b - 1\<rparr>) else (False, b))"
    using Cons.prems by (simp add: getToken_immediate)
  show ?case
  proof (cases "tokens b > 0")
    case True
    let ?b' = "b\<lparr>tokens := tokens b - 1\<rparr>"
    have "getToken_run ts ?b' = ?b'\<lparr>tokens := max 0 (tokens ?b' - int (length ts))\<rparr>"
      using Cons.prems True by (intro Cons.IH) auto
    then show ?thesis using True imm by simp
  next
    case False
    have "getToken_run ts b = b\<lparr>tokens := max 0 (tokens b - int (length ts))\<rparr>"
      using Cons.prems by (intro Cons.IH) auto
    then show ?thesis using False imm Cons.prems(2) by simp
  qed
qed

lemma first_six: "map (\<lambda>i. int i < 5) [0..<6] = [True, True, True, True, True, False]"
  by (simp add: upt_conv_Cons)

lemma getToken_refill_step:
  "refillRate b = 60000 \<Longrightarrow> capacity b = 5 \<Longrightarrow> tokens b = 0 \<Longrightarrow> 60000 \<le> now - lastRefill b \<Longrightarrow>
     getToken now b =
       (True, b\<lparr>tokens := min 5 ((now - lastRefill b) div 60000) - 1, lastRefill := now\<rparr>)"
proof -
  assume a: "refillRate b = 60000" "capacity b = 5" "tokens b = 0" and e: "60000 \<le> now - lastRefill b"
  from e have "0 < (now - lastRefill b) div 60000" by (simp add: pos_imp_zdiv_pos_iff)
  with a show ?thesis by (simp add: getToken_def Let_def)
qed

lemma getToken_step_described:
  "fst (getToken now b) =
      (0 < (if 1 \<le> (now - lastRefill b) div refillRate b
            then min (capacity b) (tokens b + (now - lastRefill b) div refillRate b)
            else tokens b))
   \<and> lastRefill (snd (getToken now b)) =
      (if 1 \<le> (now - lastRefill b) div refillRate b then now else lastRefill b)
   \<and> tokens (snd (getToken now b)) =
      (if 1 \<le> (now - lastRefill b) div refillRate b
       then min (capacity b) (tokens b + (now - lastRefill b) div refillRate b)
       else tokens b) - (if fst (getToken now b) then 1 else 0)"
  by (simp add: getToken_def Let_def)

text \<open>
  Claim C4, as the code has it. On the initial bucket (5 tokens, one per 60000 ms, baseline
  \<open>t0\<close>), six calls made before a refill interval has passed return true five times and
  then false. A later call at time \<open>u\<close>, at least 60000 ms after the baseline, followed by
  calls within 60000 ms of \<open>u\<close>, succeeds exactly \<open>min 5 ((u - t0) div 60000)\<close> times:
  exactly once when fewer than 120000 ms have passed. A call adds
  \<open>(now - lastRefill) div refillRate\<close> tokens, capped at the capacity, and moves the
  baseline to \<open>now\<close> only when that amount is at least 1; it then succeeds and takes a
  token iff a token is left.
\<close>

theorem getToken_burst_then_refill:
  assumes six: "length ts = 6"
    and burst: "\<forall>t\<in>set ts. t - t0 < 60000"
    and wait: "60000 \<le> u - t0"
    and after: "\<forall>t\<in>set us. t - u < 60000"
  shows "getToken_results (ts @ u # us) (initialBucket t0) =
           [True, True, True, True, True, False] @
           map (\<lambda>i. int i < min 5 ((u - t0) div 60000)) [0..<Suc (length us)]
         \<and> (u - t0 < 120000 \<longrightarrow>
              getToken_results (ts @ u # us) (initialBucket t0) =
                [True, True, True, True, True, False, True] @ replicate (length us) False)
         \<and> fst (getToken now b) =
              (0 < (if 1 \<le> (now - lastRefill b) div refillRate b
                    then min (capacity b) (tokens b + (now - lastRefill b) div refillRate b)
                    else tokens b))
         \<and> lastRefill (snd (getToken now b)) =
              (if 1 \<le> (now - lastRefill b) div refillRate b then now else lastRefill b)
         \<and> tokens (snd (getToken now b)) =
              (if 1 \<le> (now - lastRefill b) div refillRate b
               then min (capacity b) (tokens b + (now - lastRefill b) div refillRate b)
               else tokens b) - (if fst (getToken now b) then 1 else 0)"
proof -
  let ?b0 = "initialBucket t0"
  let ?n = "(u - t0) div 60000"
  have b0: "refillRate ?b0 = 60000" "capacity ?b0 = 5" "tokens ?b0 = 5" "lastRefill ?b0 = t0"
    by (simp_all add: initialBucket_def)
  have r1: "getToken_results ts ?b0 = [True, True, True, True, True, False]"
    using drain_results [of ?b0 ts] b0 burst six first_six by simp
  let ?b1 = "getToken_run ts ?b0"
  have b1: "?b1 = ?b0\<lparr>tokens := 0\<rparr>"
    using drain_run [of ?b0 ts] b0 burst six by simp
  have npos: "0 < ?n" using wait by (simp add: pos_imp_zdiv_pos_iff)
  let ?b2 = "?b0\<lparr>tokens := min 5 ?n - 1, lastRefill := u\<rparr>"
  have g: "getToken u ?b1 = (True, ?b2)"
    using getToken_refill_step [of ?b1 u] b1 b0 wait by simp
  have r3: "getToken_results us ?b2 = map (\<lambda>i. int i < min 5 ?n - 1) [0..<length us]"
    using drain_results [of ?b2 us] b0 after npos by simp
  have r2: "getToken_results (u # us) ?b1 = map (\<lambda>i. int i < min 5 ?n) [0..<Suc (length us)]"
    using g r3 npos by (auto simp: getToken_results_Cons map_upt_Suc simp del: upt_Suc)
  have all: "getToken_results (ts @ u # us) ?b0 =
      [True, True, True, True, True, False] @ map (\<lambda>i. int i < min 5 ?n) [0..<Suc (length us)]"
    using r1 r2 by (simp add: getToken_results_append)
  have one: "u - t0 < 120000 \<Longrightarrow>
      map (\<lambda>i. int i < min 5 ?n) [0..<Suc (length us)] = True # replicate (length us) False"
  proof -
    assume lt: "u - t0 < 120000"
    have "\<not> 1 < ?n"
    proof
      assume "1 < ?n"
      moreover have "?n * 60000 + (u - t0) mod 60000 = u - t0" by simp
      moreover have "0 \<le> (u - t0) mod 60000" by simp
      ultimately have "120000 \<le> u - t0" by linarith
      with lt show False by simp
    qed
    with npos have "?n = 1" by simp
    then show ?thesis
      by (simp add: map_upt_Suc map_replicate_trivial del: upt_Suc)
  qed
  have burst_part: "getToken_results (ts @ u # us) ?b0 =
           [True, True, True, True, True, False] @ map (\<lambda>i. int i < min 5 ?n) [0..<Suc (length us)]
         \<and> (u - t0 < 120000 \<longrightarrow>
              getToken_results (ts @ u # us) ?b0 =
                [True, True, True, True, True, False, True] @ replicate (length us) False)"
  proof (intro conjI impI)
    show "getToken_results (ts @ u # us) ?b0 =
      [True, True, True, True, True, False] @ map (\<lambda>i. int i < min 5 ?n) [0..<Suc (length us)]"
      by (rule all)
  next
    assume lt: "u - t0 < 120000"
    show "getToken_results (ts @ u # us) ?b0 =
      [True, True, True, True, True, False, True] @ replicate (length us) False"
      unfolding all one [OF lt] by simp
  qed
  from burst_part getToken_step_described [of now b] show ?thesis by blast
qed

theorem getToken_burst_then_refill_witness:
  "length [0, 0, 0, 0, 0, 0 :: int] = 6
   \<and> list_all (\<lambda>t. t - 0 < 60000) [0, 0, 0, 0, 0, 0 :: int]
   \<and> (60000 :: int) \<le> 60000 - 0
   \<and> list_all (\<lambda>t. t - 60000 < 60000) [60000 :: int]
   \<and> getToken_results [0, 0, 0, 0, 0, 0, 60000, 60000] (initialBucket 0) =
     [True, True, True, True, True, False, True, False]"
  using getToken_burst_then_refill [of "[0, 0, 0, 0, 0, 0]" 0 60000 "[60000]"] by simp

text \<open>
  The claim as written fails after a longer wait: 120 seconds after the baseline two
  further calls succeed, not exactly one. And a call that earns no token does not move
  the baseline: after a call at 30000 it is still 0.
\<close>

theorem getToken_two_after_long_wait:
  "getToken_results [0, 0, 0, 0, 0, 0, 120000, 120000] (initialBucket 0) =
     [True, True, True, True, True, False, True, True]
   \<and> lastRefill (snd (getToken 30000 (initialBucket 0))) = 0"
  by (simp add: getToken_results_def getToken_def initialBucket_def)

subsection \<open>Cache keys\<close>

lemma digit_char_inj: "d < 10 \<Longrightarrow> e < 10 \<Longrightarrow> digit_char d = digit_char e \<Longrightarrow> d = e"
proof -
  assume d: "d < 10" and e: "e < 10" and eq: "digit_char d = digit_char e"
  have dist: "distinct ''0123456789''" by simp
  have "(''0123456789'' ! d = ''0123456789'' ! e) = (d = e)"
    using d e by (intro nth_eq_iff_index_eq [OF dist]) simp_all
  with eq show ?thesis by (simp add: digit_char_def)
qed

lemma digit_char_not_minus: "d < 10 \<Longrightarrow> digit_char d \<noteq> CHR ''-''"
proof -
  assume d: "d < 10"
  then have "''0123456789'' ! d \<in> set ''0123456789''" by (intro nth_mem) simp
  then show ?thesis unfolding digit_char_def by auto
qed

lemma nat_digits_nonempty: "nat_digits n \<noteq> []"
  by (subst nat_digits.simps) simp

lemma nat_digits_no_minus: "CHR ''-'' \<notin> set (nat_digits n)"
proof (induction n rule: nat_digits.induct)
  case (1 n)
  show ?case
  proof (cases "n < 10")
    case True
    then show ?thesis using digit_char_not_minus [of n] by (subst nat_digits.simps) auto
  next
    case False
    then show ?thesis using 1 digit_char_not_minus [of "n mod 10"]
      by (subst nat_digits.simps) auto
  qed
qed

lemma nat_digits_inj: "nat_digits n = nat_digits m \<Longrightarrow> n = m"
proof (induction n arbitrary: m rule: nat_digits.induct)
  case (1 n)
  show ?case
  proof (cases "n < 10")
    case n: True
    show ?thesis
    proof (cases "m < 10")
      case True
      then show ?thesis using n "1.prems" digit_char_inj [of n m]
        by (simp add: nat_digits.simps [of n] nat_digits.simps [of m])
    next
      case False
      then show ?thesis using n "1.prems" nat_digits_nonempty [of "m div 10"]
        by (simp add: nat_digits.simps [of n] nat_digits.simps [of m])
    qed
  next
    case n: False
    show ?thesis
    proof (cases "m < 10")
      case True
      then show ?thesis using n "1.prems" nat_digits_nonempty [of "n div 10"]
        by (simp add: nat_digits.simps [of n] nat_digits.simps [of m])
    next
      case False
      with n "1.prems" have eq: "nat_digits (n div 10) = nat_digits (m div 10)"
        and d: "digit_char (n mod 10) = digit_char (m mod 10)"
        by (simp_all add: nat_digits.simps [of n] nat_digits.simps [of m])
      have "n div 10 = m div 10" using "1.IH" [OF n eq] .
      moreover have "n mod 10 = m mod 10" using digit_char_inj [OF _ _ d] by simp
      ultimately show ?thesis by (metis div_mult_mod_eq)
    qed
  qed
qed

lemma number_to_string_inj: "number_to_string i = number_to_string j \<Longrightarrow> i = j"
proof -
  assume eq: "number_to_string i = number_to_string j"
  have hd_digits: "\<And>n. hd (nat_digits n) \<noteq> CHR ''-''"
    using nat_digits_no_minus nat_digits_nonempty by (metis hd_in_set)
  show ?thesis
  proof (cases "i < 0")
    case i: True
    show ?thesis
    proof (cases "j < 0")
      case True
      with i eq have "nat (- i) = nat (- j)" by (simp add: number_to_string_def nat_digits_inj)
      with i True show ?thesis by simp
    next
      case False
      with i eq have "CHR ''-'' # nat_digits (nat (- i)) = nat_digits (nat j)"
        by (simp add: number_to_string_def)
      then have "hd (nat_digits (nat j)) = CHR ''-''" by (metis list.sel(1))
      with hd_digits show ?thesis by simp
    qed
  next
    case i: False
    show ?thesis
    proof (cases "j < 0")
      case True
      with i eq have "nat_digits (nat i) = CHR ''-'' # nat_digits (nat (- j))"
        by (simp add: number_to_string_def)
      then have "hd (nat_digits (nat i)) = CHR ''-''" by (metis list.sel(1))
      with hd_digits show ?thesis by simp
    next
      case False
      with i eq have "nat i = nat j" by (simp add: number_to_string_def nat_digits_inj)
      with i False show ?thesis by simp
    qed
  qed
qed

lemma cacheKey_inj: "cacheKey a = cacheKey b \<Longrightarrow> a = b"
  by (simp add: cacheKey_def number_to_string_inj)

lemma cacheKey_eq_iff [simp]: "(cacheKey a = cacheKey b) = (a = b)"
  using cacheKey_inj by auto

subsection \<open>Cache and relay fetcher\<close>

lemma cache_get_after_set:
  "cache_get now' key (cache_set now key v stdTTL c) = (if now + 600000 < now' then None else Some v)"
  by (simp add: cache_get_def cache_set_def stdTTL_def)

lemma fetchNostrPosts_hit:
  "cache_get now (cacheKey tab) c = Some v \<Longrightarrow>
     fetchNostrPosts tab now w c = \<lparr>nostr_result = v, nostr_cache = c, subscriptions = 0\<rparr>"
  by (simp add: fetchNostrPosts_def)

text \<open>
  Claim C6. A value stored with \<open>set\<close> at time \<open>now\<close> is returned by \<open>get\<close> on the same
  key up to 600 seconds (600000 ms) later, and \<open>get\<close> is a miss after that; when the
  lookup of the tab's key is a hit, \<^verbatim>\<open>fetchNostrPosts\<close> returns the cached list and opens
  no relay subscription.
\<close>

theorem cache_ttl_and_hit:
  "(now' \<le> now + 600 * 1000 \<longrightarrow> cache_get now' key (cache_set now key v stdTTL c) = Some v)
   \<and> (now + 600 * 1000 < now' \<longrightarrow> cache_get now' key (cache_set now key v stdTTL c) = None)
   \<and> (cache_get t (cacheKey tab) c' = Some posts \<longrightarrow>
        nostr_result (fetchNostrPosts tab t w c') = posts
        \<and> subscriptions (fetchNostrPosts tab t w c') = 0)"
  by (simp add: cache_get_after_set fetchNostrPosts_hit)

theorem cache_ttl_and_hit_witness:
  "cache_get 600000 (cacheKey 1) (cache_set 0 (cacheKey 1) [post1] stdTTL Map.empty) = Some [post1]
   \<and> cache_get 600001 (cacheKey 1) (cache_set 0 (cacheKey 1) [post1] stdTTL Map.empty) = None
   \<and> nostr_result (fetchNostrPosts 1 600000 quiet_world (cache_set 0 (cacheKey 1) [post1] stdTTL Map.empty)) = [post1]
   \<and> subscriptions (fetchNostrPosts 1 600000 quiet_world (cache_set 0 (cacheKey 1) [post1] stdTTL Map.empty)) = 0"
  using cache_ttl_and_hit [of 600000 0 "cacheKey 1" "[post1]" Map.empty 600000 1 "cache_set 0 (cacheKey 1) [post1] stdTTL Map.empty" "[post1]" quiet_world]
    cache_ttl_and_hit [of 600001 0 "cacheKey 1" "[post1]" Map.empty]
  by (simp add: cache_get_after_set)

lemma fetchNostrPosts_miss:
  "cache_get now (cacheKey tab) c = None \<Longrightarrow> fetchNostrPosts tab now w c = nostr_complete tab w c"
  by (simp add: fetchNostrPosts_def nostr_complete_def)

lemma nostr_complete_empty:
  assumes up: "\<not> sub_throws w"
    and none: "foldl (on_event tab) [] (delivered w) = []"
  shows "nostr_result (nostr_complete tab w c) = []"
    and "subscriptions (nostr_complete tab w c) = 1"
    and "nostr_cache (nostr_complete tab w c) (cacheKey tab) =
           Some \<lparr>entry_value = [], expires_at = set_time w + 600000\<rparr>"
  using assms
  by (simp_all add: nostr_complete_def cache_set_def stdTTL_def)

lemma nostr_complete_other_key:
  "tab' \<noteq> tab \<Longrightarrow> nostr_cache (nostr_complete tab' w c) (cacheKey tab) = c (cacheKey tab)"
  by (auto simp: nostr_complete_def cache_set_def split: sum.splits)

lemma nostr_complete_same_key:
  "nostr_cache (nostr_complete tab w c) (cacheKey tab) = c (cacheKey tab)
   \<or> (\<exists>ps. nostr_cache (nostr_complete tab w c) (cacheKey tab) =
             Some \<lparr>entry_value = ps, expires_at = set_time w + 600000\<rparr>)"
  by (auto simp: nostr_complete_def cache_set_def stdTTL_def split: sum.splits)

lemma fetchNostrPosts_live_entry:
  assumes e: "c (cacheKey tab) = Some e" and live: "now \<le> expires_at e"
  shows "cache_get now (cacheKey tab) c = Some (entry_value e)"
    and "fetchNostrPosts tab now w c =
           \<lparr>nostr_result = entry_value e, nostr_cache = c, subscriptions = 0\<rparr>"
proof -
  show g: "cache_get now (cacheKey tab) c = Some (entry_value e)"
    using assms by (simp add: cache_get_def)
  show "fetchNostrPosts tab now w c =
           \<lparr>nostr_result = entry_value e, nostr_cache = c, subscriptions = 0\<rparr>"
    using fetchNostrPosts_hit [of now tab c "entry_value e" w] g by simp
qed

text \<open>
  An entry that lives up to \<open>x\<close> is followed by entries that live up to \<open>x\<close>, when the
  calls of the tab that store after it store late enough.
\<close>

lemma nostr_completions_live:
  assumes "c (cacheKey tab) = Some e" and "x \<le> expires_at e"
    and "list_all (\<lambda>(tab', w'). tab' = tab \<longrightarrow> x \<le> set_time w' + 600000) fin"
  shows "\<exists>e'. nostr_completions fin c (cacheKey tab) = Some e' \<and> x \<le> expires_at e'"
  using assms
proof (induction fin arbitrary: c e)
  case Nil
  then show ?case by simp
next
  case (Cons call fin)
  obtain tab' w' where call: "call = (tab', w')" by (cases call)
  let ?c = "nostr_cache (nostr_complete tab' w' c)"
  have "\<exists>e'. ?c (cacheKey tab) = Some e' \<and> x \<le> expires_at e'"
  proof (cases "tab' = tab")
    case False
    then show ?thesis using nostr_complete_other_key [of tab' tab w' c] Cons.prems(1,2) by simp
  next
    case True
    then have "x \<le> set_time w' + 600000" using Cons.prems(3) call by simp
    then show ?thesis using nostr_complete_same_key [of tab w' c] True Cons.prems(1,2) by auto
  qed
  then obtain e' where e': "?c (cacheKey tab) = Some e'" "x \<le> expires_at e'" by blast
  have rest: "list_all (\<lambda>(tab', w'). tab' = tab \<longrightarrow> x \<le> set_time w' + 600000) fin"
    using Cons.prems(3) by simp
  show ?case using Cons.IH [of ?c e'] e' rest call by simp
qed

lemma nostr_completions_other_tabs:
  "list_all (\<lambda>(tab', w'). tab' \<noteq> tab) fin \<Longrightarrow>
     nostr_completions fin c (cacheKey tab) = c (cacheKey tab)"
proof (induction fin arbitrary: c)
  case Nil
  then show ?case by simp
next
  case (Cons call fin)
  obtain tab' w' where call: "call = (tab', w')" by (cases call)
  then have "tab' \<noteq> tab" and rest: "list_all (\<lambda>(tab', w'). tab' \<noteq> tab) fin"
    using Cons.prems by simp_all
  then show ?case
    using Cons.IH [OF rest, of "nostr_cache (nostr_complete tab' w' c)"] call
      nostr_complete_other_key [of tab' tab w' c] by simp
qed

text \<open>
  Claim C10, as the code has it. A call that missed and whose collection window ends with
  no matching event returns the empty list and stores it under the tab's key, to expire
  600 seconds after the store. Whatever calls complete afterwards (those of the same tab
  storing no earlier than this store), a fetch of the tab that starts at a time up to that
  expiry is a cache hit: it returns the cached list and opens no subscription. The list
  is the empty one when no call of the same tab, begun before the store, has completed in
  between; such a call replaces the entry by its own result.
\<close>

theorem empty_relay_result_cached:
  assumes up: "\<not> sub_throws w"
    and none: "foldl (on_event tab) [] (delivered w) = []"
    and later: "list_all (\<lambda>(tab', w'). tab' = tab \<longrightarrow> set_time w \<le> set_time w') fin"
    and live: "now' \<le> set_time w + 600 * 1000"
  shows "(cache_get now (cacheKey tab) c = None \<longrightarrow>
            fetchNostrPosts tab now w c = nostr_complete tab w c)
    \<and> nostr_result (nostr_complete tab w c) = []
    \<and> nostr_cache (nostr_complete tab w c) (cacheKey tab) =
           Some \<lparr>entry_value = [], expires_at = set_time w + 600 * 1000\<rparr>
    \<and> (\<exists>cached.
          cache_get now' (cacheKey tab)
              (nostr_completions fin (nostr_cache (nostr_complete tab w c))) = Some cached
          \<and> fetchNostrPosts tab now' w'
              (nostr_completions fin (nostr_cache (nostr_complete tab w c))) =
               \<lparr>nostr_result = cached,
                nostr_cache = nostr_completions fin (nostr_cache (nostr_complete tab w c)),
                subscriptions = 0\<rparr>)
    \<and> (list_all (\<lambda>(tab', w'). tab' \<noteq> tab) fin \<longrightarrow>
          nostr_result (fetchNostrPosts tab now' w'
              (nostr_completions fin (nostr_cache (nostr_complete tab w c)))) = [])"
proof -
  let ?c = "nostr_cache (nostr_complete tab w c)"
  let ?x = "set_time w + 600000"
  let ?e = "\<lparr>entry_value = [] :: nostr_post list, expires_at = ?x\<rparr>"
  have e: "?c (cacheKey tab) = Some ?e"
    using nostr_complete_empty(3) [OF up none] .
  have l: "list_all (\<lambda>(tab', w'). tab' = tab \<longrightarrow> ?x \<le> set_time w' + 600000) fin"
    using later by (auto simp: list_all_iff)
  have n: "now' \<le> ?x" using live by simp
  have c1: "cache_get now (cacheKey tab) c = None \<longrightarrow>
            fetchNostrPosts tab now w c = nostr_complete tab w c"
    using fetchNostrPosts_miss by blast
  have c2: "nostr_result (nostr_complete tab w c) = []"
    using nostr_complete_empty(1) [OF up none] .
  have c3: "?c (cacheKey tab) = Some \<lparr>entry_value = [], expires_at = set_time w + 600 * 1000\<rparr>"
    using e by simp
  obtain e' where e': "nostr_completions fin ?c (cacheKey tab) = Some e'" "?x \<le> expires_at e'"
    using nostr_completions_live [of ?c tab ?e ?x fin] e l by auto
  then have n': "now' \<le> expires_at e'" using n by simp
  have c4: "\<exists>cached.
          cache_get now' (cacheKey tab) (nostr_completions fin ?c) = Some cached
          \<and> fetchNostrPosts tab now' w' (nostr_completions fin ?c) =
               \<lparr>nostr_result = cached, nostr_cache = nostr_completions fin ?c, subscriptions = 0\<rparr>"
    using fetchNostrPosts_live_entry(1) [of "nostr_completions fin ?c" tab e' now']
      fetchNostrPosts_live_entry(2) [of "nostr_completions fin ?c" tab e' now' w'] e'(1) n'
    by blast
  have c5: "list_all (\<lambda>(tab', w'). tab' \<noteq> tab) fin \<longrightarrow>
          nostr_result (fetchNostrPosts tab now' w' (nostr_completions fin ?c)) = []"
  proof
    assume "list_all (\<lambda>(tab', w'). tab' \<noteq> tab) fin"
    then have "nostr_completions fin ?c (cacheKey tab) = Some ?e"
      using nostr_completions_other_tabs [of tab fin ?c] e by simp
    then show "nostr_result (fetchNostrPosts tab now' w' (nostr_completions fin ?c)) = []"
      using fetchNostrPosts_live_entry(2) [of "nostr_completions fin ?c" tab ?e now' w'] n by simp
  qed
  from c1 c2 c3 c4 c5 show ?thesis by blast
qed

lemma chatter_no_match: "\<not> tab_matches 3 (ev_content chatter_event)"
  by code_simp

lemma science_match: "tab_matches 3 (ev_content science_event)"
  by code_simp

lemma on_event_tab_matches:
  "on_event tab acc ev = (if tab_matches tab (ev_content ev) then acc @ [ev] else acc)"
  by (simp add: on_event_def tab_matches_def split: option.splits)

theorem empty_relay_result_cached_witness:
  "nostr_result (fetchNostrPosts 3 0 (relay_world [chatter_event] 10000) Map.empty) = []
   \<and> nostr_result (fetchNostrPosts 3 610000 (relay_world [science_event] 620000)
        (nostr_completions [(2, relay_world [science_event] 12000)]
           (nostr_cache (nostr_complete 3 (relay_world [chatter_event] 10000) Map.empty)))) = []
   \<and> subscriptions (fetchNostrPosts 3 610000 (relay_world [science_event] 620000)
        (nostr_completions [(2, relay_world [science_event] 12000)]
           (nostr_cache (nostr_complete 3 (relay_world [chatter_event] 10000) Map.empty)))) = 0"
proof -
  let ?w = "relay_world [chatter_event] 10000"
  let ?w' = "relay_world [science_event] 620000"
  let ?fin = "[(2 :: int, relay_world [science_event] 12000)]"
  have miss: "cache_get 0 (cacheKey 3) Map.empty = None" by (simp add: cache_get_def)
  have up: "\<not> sub_throws ?w" by (simp add: relay_world_def)
  have none: "foldl (on_event 3) [] (delivered ?w) = []"
    using chatter_no_match by (simp add: relay_world_def on_event_tab_matches)
  have later: "list_all (\<lambda>(tab', w'). tab' = 3 \<longrightarrow> set_time ?w \<le> set_time w') ?fin"
    by simp
  have live: "610000 \<le> set_time ?w + 600 * 1000" by (simp add: relay_world_def)
  have others: "list_all (\<lambda>(tab', w'). tab' \<noteq> 3) ?fin" by simp
  note t = empty_relay_result_cached [OF up none later live, of 0 Map.empty ?w']
  from t miss have eq: "fetchNostrPosts 3 0 ?w Map.empty = nostr_complete 3 ?w Map.empty"
    by blast
  from t have "nostr_result (nostr_complete 3 ?w Map.empty) = []" by blast
  then have first: "nostr_result (fetchNostrPosts 3 0 ?w Map.empty) = []" by (simp only: eq)
  from t others have second: "nostr_result (fetchNostrPosts 3 610000 ?w'
        (nostr_completions ?fin (nostr_cache (nostr_complete 3 ?w Map.empty)))) = []" by blast
  from t obtain cached where "fetchNostrPosts 3 610000 ?w'
        (nostr_completions ?fin (nostr_cache (nostr_complete 3 ?w Map.empty))) =
          \<lparr>nostr_result = cached,
           nostr_cache = nostr_completions ?fin (nostr_cache (nostr_complete 3 ?w Map.empty)),
           subscriptions = 0\<rparr>" by blast
  then have third: "subscriptions (fetchNostrPosts 3 610000 ?w'
        (nostr_completions ?fin (nostr_cache (nostr_complete 3 ?w Map.empty)))) = 0" by simp
  from first second third show ?thesis by blast
qed

text \<open>
  The claim as written fails when requests overlap. On the empty cache a first request
  for tab 3 stores the empty list at 10000. A second request for the tab began at 5000,
  before that store, and missed; it completes at 15000 with one matching event and stores
  its list over the empty one. A fetch at 20000, within 600 seconds of the first store, is
  a hit on that list: it does not return the empty list.
\<close>

theorem overlapping_fetch_replaces_empty_result:
  "nostr_result (nostr_complete 3 (relay_world [chatter_event] 10000) Map.empty) = []
   \<and> cache_get 5000 (cacheKey 3) Map.empty = None
   \<and> map np_content (nostr_result (fetchNostrPosts 3 20000 (relay_world [] 30000)
        (nostr_completions [(3, relay_world [science_event] 15000)]
           (nostr_cache (nostr_complete 3 (relay_world [chatter_event] 10000) Map.empty)))))
      = [''new paper on arXiv.org today'']
   \<and> subscriptions (fetchNostrPosts 3 20000 (relay_world [] 30000)
        (nostr_completions [(3, relay_world [science_event] 15000)]
           (nostr_cache (nostr_complete 3 (relay_world [chatter_event] 10000) Map.empty)))) = 0"
  using chatter_no_match science_match
  by (simp add: nostr_complete_def fetchNostrPosts_def cache_get_def cache_set_def stdTTL_def
      relay_world_def on_event_tab_matches science_event_def)

subsection \<open>Mastodon fetcher\<close>

lemma page_step_NextPage_iff:
  "(page_step pat allPosts resp = NextPage m a) =
     (\<exists>code sts. resp = Response code (Statuses sts) \<and> response_ok code \<and> postsPerPage \<le> length sts
        \<and> m = Some (st_id (last sts))
        \<and> a = allPosts @ filter (\<lambda>post. regex_test pat (st_content post)) sts)"
  by (auto simp: page_step_def Let_def postsPerPage_def split: search_response.splits search_body.splits)

lemma page_continues_iff:
  "page_continues resp = (\<exists>m a. page_step pat allPosts resp = NextPage m a)"
  by (auto simp: page_continues_def page_size_def page_step_NextPage_iff split: search_response.splits search_body.splits)

lemma pages_loop_done:
  "\<not> page < maxPages \<Longrightarrow> pages_loop up pat q page maxId allPosts = ([], Inr allPosts)"
  by (subst pages_loop.simps) simp

lemma pages_loop_Thrown:
  "page < maxPages \<Longrightarrow> page_step pat allPosts (up page (search_params q maxId)) = Thrown err \<Longrightarrow>
     pages_loop up pat q page maxId allPosts = ([search_params q maxId], Inl err)"
  by (subst pages_loop.simps) (simp add: search_params_def)

lemma pages_loop_Break:
  "page < maxPages \<Longrightarrow> page_step pat allPosts (up page (search_params q maxId)) = Break posts \<Longrightarrow>
     pages_loop up pat q page maxId allPosts = ([search_params q maxId], Inr posts)"
  by (subst pages_loop.simps) (simp add: search_params_def)

lemma pages_loop_NextPage:
  "page < maxPages \<Longrightarrow> page_step pat allPosts (up page (search_params q maxId)) = NextPage m posts \<Longrightarrow>
     pages_loop up pat q page maxId allPosts =
       (search_params q maxId # fst (pages_loop up pat q (Suc page) m posts),
        snd (pages_loop up pat q (Suc page) m posts))"
  by (subst pages_loop.simps) (simp add: search_params_def split: prod.splits)

lemma pages_loop_cases:
  obtains (fin) "\<not> page < maxPages" "pages_loop up pat q page maxId allPosts = ([], Inr allPosts)"
  | (thrown) err where "page < maxPages"
      "page_step pat allPosts (up page (search_params q maxId)) = Thrown err"
      "pages_loop up pat q page maxId allPosts = ([search_params q maxId], Inl err)"
  | (brk) posts where "page < maxPages"
      "page_step pat allPosts (up page (search_params q maxId)) = Break posts"
      "pages_loop up pat q page maxId allPosts = ([search_params q maxId], Inr posts)"
  | (nxt) m posts where "page < maxPages"
      "page_step pat allPosts (up page (search_params q maxId)) = NextPage m posts"
      "pages_loop up pat q page maxId allPosts =
         (search_params q maxId # fst (pages_loop up pat q (Suc page) m posts),
          snd (pages_loop up pat q (Suc page) m posts))"
proof (cases "page < maxPages")
  case False
  then show ?thesis using pages_loop_done that(1) by blast
next
  case True
  show ?thesis
  proof (cases "page_step pat allPosts (up page (search_params q maxId))")
    case (Thrown err)
    then show ?thesis using True pages_loop_Thrown that(2) by blast
  next
    case (Break posts)
    then show ?thesis using True pages_loop_Break that(3) by blast
  next
    case (NextPage m posts)
    then show ?thesis using True pages_loop_NextPage that(4) by blast
  qed
qed

lemma pages_loop_length: "length (fst (pages_loop up pat q page maxId allPosts)) \<le> maxPages - page"
proof (induction "maxPages - page" arbitrary: page maxId allPosts)
  case 0
  then show ?case by (simp add: pages_loop_done)
next
  case (Suc n)
  show ?case
  proof (cases rule: pages_loop_cases [of page up pat q maxId allPosts])
    case fin
    then show ?thesis by simp
  next
    case (thrown err)
    then show ?thesis by simp
  next
    case (brk posts)
    then show ?thesis by simp
  next
    case (nxt m posts)
    have "length (fst (pages_loop up pat q (Suc page) m posts)) \<le> maxPages - Suc page"
      using Suc.hyps(2) by (intro Suc.hyps(1)) simp
    then show ?thesis using nxt by simp
  qed
qed

lemma pages_loop_requests:
  "r \<in> set (fst (pages_loop up pat q page maxId allPosts)) \<Longrightarrow>
     rq_limit r = postsPerPage \<and> rq_q r = q \<and> rq_type r = ''statuses''"
proof (induction "maxPages - page" arbitrary: page maxId allPosts)
  case 0
  then show ?case by (simp add: pages_loop_done)
next
  case (Suc n)
  show ?case
  proof (cases rule: pages_loop_cases [of page up pat q maxId allPosts])
    case fin
    then show ?thesis using Suc.prems by simp
  next
    case (thrown err)
    then show ?thesis using Suc.prems by (simp add: search_params_def)
  next
    case (brk posts)
    then show ?thesis using Suc.prems by (simp add: search_params_def)
  next
    case (nxt m posts)
    from Suc.prems nxt consider "r = search_params q maxId"
      | "r \<in> set (fst (pages_loop up pat q (Suc page) m posts))" by auto
    then show ?thesis
    proof cases
      case 1
      then show ?thesis by (simp add: search_params_def)
    next
      case 2
      show ?thesis using Suc.hyps(2) 2 by (intro Suc.hyps(1) [of "Suc page" m posts]) simp_all
    qed
  qed
qed

lemma pages_loop_first:
  "page < maxPages \<Longrightarrow>
     fst (pages_loop up pat q page maxId allPosts) \<noteq> []
     \<and> fst (pages_loop up pat q page maxId allPosts) ! 0 = search_params q maxId"
  by (cases rule: pages_loop_cases [of page up pat q maxId allPosts]) simp_all

text \<open>A further request follows request \<open>k\<close> only after a full page, and carries its last id.\<close>

lemma pages_loop_cursor:
  "Suc k < length (fst (pages_loop up pat q page maxId allPosts)) \<Longrightarrow>
     \<exists>code sts. up (page + k) (fst (pages_loop up pat q page maxId allPosts) ! k) = Response code (Statuses sts)
        \<and> response_ok code \<and> postsPerPage \<le> length sts
        \<and> rq_max_id (fst (pages_loop up pat q page maxId allPosts) ! Suc k)
             = max_id_param (Some (st_id (last sts)))"
proof (induction k arbitrary: page maxId allPosts)
  case 0
  show ?case
  proof (cases rule: pages_loop_cases [of page up pat q maxId allPosts])
    case fin
    then show ?thesis using 0 by simp
  next
    case (thrown err)
    then show ?thesis using 0 by simp
  next
    case (brk posts)
    then show ?thesis using 0 by simp
  next
    case (nxt m posts)
    from nxt(2) obtain code sts where r: "up page (search_params q maxId) = Response code (Statuses sts)"
      "response_ok code" "postsPerPage \<le> length sts" "m = Some (st_id (last sts))"
      by (auto simp: page_step_NextPage_iff)
    have "Suc page < maxPages"
    proof (rule ccontr)
      assume "\<not> Suc page < maxPages"
      then have "fst (pages_loop up pat q (Suc page) m posts) = []" by (simp add: pages_loop_done)
      with 0 nxt show False by simp
    qed
    then have "fst (pages_loop up pat q (Suc page) m posts) ! 0 = search_params q m"
      using pages_loop_first by blast
    then show ?thesis using nxt r by (simp add: search_params_def)
  qed
next
  case (Suc k)
  show ?case
  proof (cases rule: pages_loop_cases [of page up pat q maxId allPosts])
    case fin
    then show ?thesis using Suc.prems by simp
  next
    case (thrown err)
    then show ?thesis using Suc.prems by simp
  next
    case (brk posts)
    then show ?thesis using Suc.prems by simp
  next
    case (nxt m posts)
    have "Suc k < length (fst (pages_loop up pat q (Suc page) m posts))"
      using Suc.prems nxt by simp
    from Suc.IH [OF this] show ?thesis using nxt by simp
  qed
qed

text \<open>A response that does not ask for a next page is the last of the call.\<close>

lemma pages_loop_stops:
  "k < length (fst (pages_loop up pat q page maxId allPosts)) \<Longrightarrow>
     \<not> page_continues (up (page + k) (fst (pages_loop up pat q page maxId allPosts) ! k)) \<Longrightarrow>
     length (fst (pages_loop up pat q page maxId allPosts)) = Suc k"
proof (induction k arbitrary: page maxId allPosts)
  case 0
  show ?case
  proof (cases rule: pages_loop_cases [of page up pat q maxId allPosts])
    case fin
    then show ?thesis using 0 by simp
  next
    case (thrown err)
    then show ?thesis by simp
  next
    case (brk posts)
    then show ?thesis by simp
  next
    case (nxt m posts)
    then have "page_continues (up page (search_params q maxId))"
      using page_continues_iff by blast
    then show ?thesis using 0 nxt by simp
  qed
next
  case (Suc k)
  show ?case
  proof (cases rule: pages_loop_cases [of page up pat q maxId allPosts])
    case fin
    then show ?thesis using Suc.prems by simp
  next
    case (thrown err)
    then show ?thesis using Suc.prems by simp
  next
    case (brk posts)
    then show ?thesis using Suc.prems by simp
  next
    case (nxt m posts)
    have "length (fst (pages_loop up pat q (Suc page) m posts)) = Suc k"
      using Suc.prems nxt by (intro Suc.IH) simp_all
    then show ?thesis using nxt by simp
  qed
qed

text \<open>\<open>n\<close> full pages followed by a page that is not full: exactly \<open>n + 1\<close> requests.\<close>

lemma pages_loop_full_then_short:
  "(\<And>j r. j < n \<Longrightarrow> page_continues (up (page + j) r)) \<Longrightarrow>
   (\<And>r. \<not> page_continues (up (page + n) r)) \<Longrightarrow> page + n < maxPages \<Longrightarrow>
     length (fst (pages_loop up pat q page maxId allPosts)) = Suc n"
proof (induction n arbitrary: page maxId allPosts)
  case 0
  show ?case
  proof (cases rule: pages_loop_cases [of page up pat q maxId allPosts])
    case fin
    then show ?thesis using 0 by simp
  next
    case (thrown err)
    then show ?thesis by simp
  next
    case (brk posts)
    then show ?thesis by simp
  next
    case (nxt m posts)
    then have "page_continues (up page (search_params q maxId))"
      using page_continues_iff by blast
    then show ?thesis using "0.prems"(2) [of "search_params q maxId"] by simp
  qed
next
  case (Suc n)
  show ?case
  proof (cases rule: pages_loop_cases [of page up pat q maxId allPosts])
    case fin
    then show ?thesis using Suc.prems by simp
  next
    case (thrown err)
    have "page_continues (up (page + 0) (search_params q maxId))" by (intro Suc.prems(1)) simp
    then show ?thesis using thrown page_continues_iff [of "up page (search_params q maxId)" pat allPosts] by simp
  next
    case (brk posts)
    have "page_continues (up (page + 0) (search_params q maxId))" by (intro Suc.prems(1)) simp
    then show ?thesis using brk page_continues_iff [of "up page (search_params q maxId)" pat allPosts] by simp
  next
    case (nxt m posts)
    have "length (fst (pages_loop up pat q (Suc page) m posts)) = Suc n"
    proof (intro Suc.IH)
      fix j r assume "j < n"
      then show "page_continues (up (Suc page + j) r)" using Suc.prems(1) [of "Suc j" r] by simp
    next
      fix r show "\<not> page_continues (up (Suc page + n) r)" using Suc.prems(2) [of r] by simp
    next
      show "Suc page + n < maxPages" using Suc.prems(3) by simp
    qed
    then show ?thesis using nxt by simp
  qed
qed

lemma length_nostrSearchPatterns: "length nostrSearchPatterns = 7"
  by (simp add: nostrSearchPatterns_def)

lemma js_index_patterns_in_range:
  "0 \<le> tab \<Longrightarrow> tab < 7 \<Longrightarrow> js_index nostrSearchPatterns tab = Some (nostrSearchPatterns ! nat tab)"
  by (simp add: js_index_def length_nostrSearchPatterns)

lemma js_index_patterns_out_of_range:
  "tab < 0 \<or> 7 \<le> tab \<Longrightarrow> js_index nostrSearchPatterns tab = None"
  by (auto simp: js_index_def length_nostrSearchPatterns)

lemma fetchMastodonPosts_requests:
  "js_index nostrSearchPatterns tab = Some pat \<Longrightarrow>
     fst (fetchMastodonPosts tab up) = fst (pages_loop up pat (searchQuery pat) 0 None [])"
  by (simp add: fetchMastodonPosts_def split: prod.splits sum.splits)

lemma fetchMastodonPosts_no_pattern:
  "js_index nostrSearchPatterns tab = None \<Longrightarrow> fetchMastodonPosts tab up = ([], Inl TypeError)"
  by (simp add: fetchMastodonPosts_def)

lemma fetchMastodonPosts_resolves:
  "js_index nostrSearchPatterns tab = Some pat \<Longrightarrow> \<exists>posts. snd (fetchMastodonPosts tab up) = Inr posts"
  by (simp add: fetchMastodonPosts_def split: prod.splits sum.splits)

lemma fetchMastodonPosts_on_exception:
  "js_index nostrSearchPatterns tab = Some pat \<Longrightarrow>
   snd (pages_loop up pat (searchQuery pat) 0 None []) = Inl err \<Longrightarrow>
     snd (fetchMastodonPosts tab up) = Inr []"
  by (auto simp: fetchMastodonPosts_def split: prod.splits sum.splits)

lemma page_step_failed:
  "request_failed resp \<Longrightarrow> \<exists>err. page_step pat allPosts resp = Thrown err"
  by (auto simp: request_failed_def page_step_def split: search_response.splits)

lemma pages_loop_failure:
  "k < length (fst (pages_loop up pat q page maxId allPosts)) \<Longrightarrow>
     request_failed (up (page + k) (fst (pages_loop up pat q page maxId allPosts) ! k)) \<Longrightarrow>
     \<exists>err. snd (pages_loop up pat q page maxId allPosts) = Inl err"
proof (induction k arbitrary: page maxId allPosts)
  case 0
  show ?case
  proof (cases rule: pages_loop_cases [of page up pat q maxId allPosts])
    case fin
    then show ?thesis using 0 by simp
  next
    case (thrown err)
    then show ?thesis by simp
  next
    case (brk posts)
    then show ?thesis using 0 page_step_failed [of "up page (search_params q maxId)" pat allPosts] by simp
  next
    case (nxt m posts)
    then show ?thesis using 0 page_step_failed [of "up page (search_params q maxId)" pat allPosts] by simp
  qed
next
  case (Suc k)
  show ?case
  proof (cases rule: pages_loop_cases [of page up pat q maxId allPosts])
    case fin
    then show ?thesis using Suc.prems by simp
  next
    case (thrown err)
    then show ?thesis by simp
  next
    case (brk posts)
    then show ?thesis using Suc.prems by simp
  next
    case (nxt m posts)
    have "\<exists>err. snd (pages_loop up pat q (Suc page) m posts) = Inl err"
      using Suc.prems nxt by (intro Suc.IH) simp_all
    then show ?thesis using nxt by simp
  qed
qed

lemma page_step_filtered:
  "page_step pat allPosts resp = Break posts \<or> page_step pat allPosts resp = NextPage m posts \<Longrightarrow>
     p \<in> set posts \<Longrightarrow> p \<in> set allPosts \<or> regex_test pat (st_content p)"
  by (auto simp: page_step_def Let_def split: search_response.splits search_body.splits if_splits)

lemma pages_loop_filtered:
  "snd (pages_loop up pat q page maxId allPosts) = Inr posts \<Longrightarrow> p \<in> set posts \<Longrightarrow>
     p \<in> set allPosts \<or> regex_test pat (st_content p)"
proof (induction "maxPages - page" arbitrary: page maxId allPosts)
  case 0
  then show ?case by (simp add: pages_loop_done)
next
  case (Suc n)
  show ?case
  proof (cases rule: pages_loop_cases [of page up pat q maxId allPosts])
    case fin
    then show ?thesis using Suc.prems by simp
  next
    case (thrown err)
    then show ?thesis using Suc.prems by simp
  next
    case (brk posts')
    then show ?thesis using Suc.prems page_step_filtered by fastforce
  next
    case (nxt m posts')
    have "p \<in> set posts' \<or> regex_test pat (st_content p)"
      using Suc.hyps(2) Suc.prems nxt by (intro Suc.hyps(1) [of "Suc page" m posts']) simp_all
    then show ?thesis using nxt(2) page_step_filtered by blast
  qed
qed

lemma process_statuses_content:
  "process_statuses posts = Inr ps \<Longrightarrow> map mp_content ps = map st_content posts"
  by (induction posts arbitrary: ps) (auto split: option.splits sum.splits)

lemma process_events_content:
  "process_events enc events = Inr ps \<Longrightarrow> map np_content ps = map ev_content events"
  by (induction events arbitrary: ps) (auto split: option.splits sum.splits)

lemma process_items_items:
  "process_items items = Some ps \<Longrightarrow> map bp_item ps = items"
  by (induction items arbitrary: ps) (auto split: option.splits)

lemma fetchMastodonPosts_classified:
  assumes "snd (fetchMastodonPosts tab up) = Inr posts"
  shows "list_all (\<lambda>p. tab_matches tab (mp_content p)) posts"
proof (cases "js_index nostrSearchPatterns tab")
  case None
  then show ?thesis using assms by (simp add: fetchMastodonPosts_def)
next
  case (Some pat)
  obtain reqs r where l: "pages_loop up pat (searchQuery pat) 0 None [] = (reqs, r)"
    by (cases "pages_loop up pat (searchQuery pat) 0 None []")
  show ?thesis
  proof (cases r)
    case (Inl err)
    then show ?thesis using assms Some l by (simp add: fetchMastodonPosts_def)
  next
    case (Inr allPosts)
    show ?thesis
    proof (cases "process_statuses allPosts")
      case (Inl err)
      then show ?thesis using assms Some l Inr by (simp add: fetchMastodonPosts_def)
    next
      case ps: (Inr processed)
      then have posts: "posts = processed" using assms Some l Inr by (simp add: fetchMastodonPosts_def)
      have all: "\<forall>p\<in>set allPosts. regex_test pat (st_content p)"
        using pages_loop_filtered [of up pat "searchQuery pat" 0 None "[]" allPosts] l Inr by auto
      have "\<forall>c\<in>set (map st_content allPosts). regex_test pat c" using all by simp
      then have "\<forall>c\<in>set (map mp_content processed). regex_test pat c"
        using process_statuses_content [OF ps] by simp
      then show ?thesis using posts Some by (simp add: list_all_iff tab_matches_def)
    qed
  qed
qed

lemma collected_match:
  "e \<in> set (foldl (on_event tab) acc events) \<Longrightarrow> e \<in> set acc \<or> tab_matches tab (ev_content e)"
proof (induction events arbitrary: acc)
  case Nil
  then show ?case by simp
next
  case (Cons a events)
  from Cons.prems have "e \<in> set (foldl (on_event tab) (on_event tab acc a) events)" by simp
  from Cons.IH [OF this] show ?case
    by (auto simp: on_event_tab_matches split: if_splits)
qed

lemma fetchNostrPosts_classified:
  assumes inv: "cache_classified c"
  shows "list_all (\<lambda>p. tab_matches tab (np_content p)) (nostr_result (fetchNostrPosts tab now w c))
         \<and> cache_classified (nostr_cache (fetchNostrPosts tab now w c))"
proof -
  let ?key = "cacheKey tab"
  let ?ok = "list_all (\<lambda>p. tab_matches tab (np_content p))"
  show ?thesis
  proof (cases "cache_get now ?key c")
    case (Some v)
    then obtain e where "c ?key = Some e" "v = entry_value e"
      by (auto simp: cache_get_def split: option.splits if_splits)
    then have "?ok v" using inv by (auto simp: cache_classified_def)
    then show ?thesis using Some inv by (simp add: fetchNostrPosts_def)
  next
    case None
    show ?thesis
    proof (cases "sub_throws w")
      case True
      then show ?thesis using None inv by (simp add: fetchNostrPosts_def)
    next
      case False
      show ?thesis
      proof (cases "process_events (npubEncode w) (foldl (on_event tab) [] (delivered w))")
        case (Inl err)
        then show ?thesis using None inv False by (simp add: fetchNostrPosts_def)
      next
        case (Inr ps)
        have "\<forall>c\<in>set (map ev_content (foldl (on_event tab) [] (delivered w))). tab_matches tab c"
          using collected_match [of _ tab "[]" "delivered w"] by auto
        then have "\<forall>c\<in>set (map np_content ps). tab_matches tab c"
          using process_events_content [OF Inr] by simp
        then have ok: "?ok ps" by (simp add: list_all_iff)
        have "cache_classified (cache_set (set_time w) ?key ps stdTTL c)"
          using inv ok by (auto simp: cache_classified_def cache_set_def)
        then show ?thesis using None False Inr ok by (simp add: fetchNostrPosts_def)
      qed
    qed
  qed
qed

lemma nostr_complete_classified:
  assumes inv: "cache_classified c"
  shows "list_all (\<lambda>p. tab_matches tab (np_content p)) (nostr_result (nostr_complete tab w c'))
         \<and> cache_classified (nostr_cache (nostr_complete tab w c))"
proof (cases "sub_throws w")
  case True
  then show ?thesis using inv by (simp add: nostr_complete_def)
next
  case False
  show ?thesis
  proof (cases "process_events (npubEncode w) (foldl (on_event tab) [] (delivered w))")
    case (Inl err)
    then show ?thesis using inv False by (simp add: nostr_complete_def)
  next
    case (Inr ps)
    have "\<forall>c\<in>set (map ev_content (foldl (on_event tab) [] (delivered w))). tab_matches tab c"
      using collected_match [of _ tab "[]" "delivered w"] by auto
    then have "\<forall>c\<in>set (map np_content ps). tab_matches tab c"
      using process_events_content [OF Inr] by simp
    then have ok: "list_all (\<lambda>p. tab_matches tab (np_content p)) ps" by (simp add: list_all_iff)
    have "cache_classified (cache_set (set_time w) (cacheKey tab) ps stdTTL c)"
      using inv ok by (auto simp: cache_classified_def cache_set_def)
    then show ?thesis using False Inr ok by (simp add: nostr_complete_def)
  qed
qed

lemma nostr_completions_classified:
  "cache_classified c \<Longrightarrow> cache_classified (nostr_completions fin c)"
proof (induction fin arbitrary: c)
  case Nil
  then show ?case by simp
next
  case (Cons call fin)
  obtain tab w where call: "call = (tab, w)" by (cases call)
  have "cache_classified (nostr_cache (nostr_complete tab w c))"
    using nostr_complete_classified [OF Cons.prems] by blast
  from Cons.IH [OF this] show ?case using call by simp
qed

lemma cache_classified_empty: "cache_classified Map.empty"
  by (simp add: cache_classified_def)

lemma fetchBlueskyPosts_unfiltered:
  "fst (getToken now b) \<Longrightarrow> login_ok bw \<Longrightarrow> getFeed bw (js_index feedLinks tab) 50 lang = Some items \<Longrightarrow>
   process_items items = Some ps \<Longrightarrow>
     fst (fetchBlueskyPosts tab lang now bw b) = ps \<and> map bp_item ps = items"
  by (cases "getToken now b") (simp add: fetchBlueskyPosts_def process_items_items)

lemma gov_status_matches: "tab_matches 1 (st_content gov_status)"
  by code_simp

lemma hello_no_match: "\<not> tab_matches 1 ''hello''"
  by code_simp

lemma fetchMastodonPosts_full_then_short:
  assumes tab: "0 \<le> tab" "tab < 7"
    and full: "\<And>j r. j < n \<Longrightarrow> page_continues (up j r)"
    and short: "\<And>r. \<not> page_continues (up n r)"
    and n: "n < 10"
  shows "length (fst (fetchMastodonPosts tab up)) = Suc n"
proof -
  let ?pat = "nostrSearchPatterns ! nat tab"
  have "length (fst (pages_loop up ?pat (searchQuery ?pat) 0 None [])) = Suc n"
    using full short n by (intro pages_loop_full_then_short) (simp_all add: maxPages_def)
  then show ?thesis
    using fetchMastodonPosts_requests [OF js_index_patterns_in_range [OF tab]] by simp
qed

text \<open>
  Claim C3. If the response to any request of a call is a failure at the HTTP level (the
  request is rejected, or answered with a status outside 200..299), the call resolves to
  the empty list, whatever earlier pages had accumulated.
\<close>

theorem mastodon_http_error_gives_empty:
  assumes "k < length (fst (fetchMastodonPosts tab up))"
    and "request_failed (response_at tab up k)"
  shows "snd (fetchMastodonPosts tab up) = Inr []"
proof (cases "js_index nostrSearchPatterns tab")
  case None
  then show ?thesis using assms(1) by (simp add: fetchMastodonPosts_no_pattern)
next
  case (Some pat)
  let ?reqs = "fst (pages_loop up pat (searchQuery pat) 0 None [])"
  have reqs: "fst (fetchMastodonPosts tab up) = ?reqs" using fetchMastodonPosts_requests [OF Some] .
  have "\<exists>err. snd (pages_loop up pat (searchQuery pat) 0 None []) = Inl err"
    using assms reqs pages_loop_failure [of k up pat "searchQuery pat" 0 None "[]"]
    by (simp add: response_at_def)
  then show ?thesis using fetchMastodonPosts_on_exception [OF Some] by blast
qed

lemma page_continues_simps:
  "page_continues (Response 200 (Statuses (replicate 40 s)))"
  "\<not> page_continues (Response 200 (Statuses (replicate 5 s)))"
  "\<not> page_continues (Response 200 (Statuses []))"
  "\<not> page_continues (Response 500 body)"
  by (simp_all add: page_continues_def page_size_def response_ok_def postsPerPage_def split: search_body.splits)

theorem mastodon_http_error_gives_empty_witness:
  "length (fst (fetchMastodonPosts 1 full_then_error)) = 2
   \<and> response_at 1 full_then_error 0 = Response 200 (Statuses (replicate 40 gov_status))
   \<and> tab_matches 1 (st_content gov_status)
   \<and> response_at 1 full_then_error 1 = Response 500 NoData
   \<and> snd (fetchMastodonPosts 1 full_then_error) = Inr []"
proof -
  have len: "length (fst (fetchMastodonPosts 1 full_then_error)) = Suc 1"
    by (rule fetchMastodonPosts_full_then_short) (simp_all add: full_then_error_def page_continues_simps)
  then have k: "1 < length (fst (fetchMastodonPosts 1 full_then_error))" by simp
  have r: "response_at 1 full_then_error 1 = Response 500 NoData"
    by (simp add: response_at_def full_then_error_def)
  then have f: "request_failed (response_at 1 full_then_error 1)"
    by (simp add: request_failed_def response_ok_def)
  from mastodon_http_error_gives_empty [OF k f] len r gov_status_matches show ?thesis
    by (simp add: response_at_def full_then_error_def)
qed

subsection \<open>Pagination, classification and the route\<close>

lemma max_id_param_Some: "i \<noteq> [] \<Longrightarrow> max_id_param (Some i) = Some i"
  by (simp add: max_id_param_def)

lemma page_continues_size: "page_size resp = Some n \<Longrightarrow> page_continues resp = (40 \<le> n)"
  by (simp add: page_continues_def postsPerPage_def)

text \<open>
  Claim C5. For a tab with a pattern, a call issues between 1 and 10 requests, each with
  limit 40, type \<^verbatim>\<open>statuses\<close> and the tab's search query. The first request has no
  cursor. A further request is issued only after a successful page of at least 40
  statuses, and its \<^verbatim>\<open>max_id\<close> is the id of the last status of that page (the guard
  \<^verbatim>\<open>maxId && ...\<close> leaves an empty id out). A page of fewer than 40 statuses, an empty
  one included, is the last request. Nine pages of 40 and then a page of 5 give exactly
  10 requests; an empty first page gives exactly one request and the empty list.
\<close>

theorem mastodon_pagination:
  assumes tab: "0 \<le> tab" "tab < 7"
  shows "length (fst (fetchMastodonPosts tab up)) \<le> 10
    \<and> fst (fetchMastodonPosts tab up) \<noteq> []
    \<and> (\<forall>r\<in>set (fst (fetchMastodonPosts tab up)).
          rq_limit r = 40 \<and> rq_type r = ''statuses''
          \<and> rq_q r = searchQuery (nostrSearchPatterns ! nat tab))
    \<and> rq_max_id (fst (fetchMastodonPosts tab up) ! 0) = None
    \<and> (\<forall>k. Suc k < length (fst (fetchMastodonPosts tab up)) \<longrightarrow>
          (\<exists>code statuses.
              response_at tab up k = Response code (Statuses statuses)
              \<and> response_ok code \<and> 40 \<le> length statuses
              \<and> rq_max_id (fst (fetchMastodonPosts tab up) ! Suc k)
                    = max_id_param (Some (st_id (last statuses)))
              \<and> (st_id (last statuses) \<noteq> [] \<longrightarrow>
                    rq_max_id (fst (fetchMastodonPosts tab up) ! Suc k) = Some (st_id (last statuses)))))
    \<and> (\<forall>k n. k < length (fst (fetchMastodonPosts tab up))
              \<and> page_size (response_at tab up k) = Some n \<and> n < 40
            \<longrightarrow> length (fst (fetchMastodonPosts tab up)) = Suc k)
    \<and> ((\<forall>k r. k < 9 \<longrightarrow> page_size (up k r) = Some 40) \<and> (\<forall>r. page_size (up 9 r) = Some 5)
            \<longrightarrow> length (fst (fetchMastodonPosts tab up)) = 10)
    \<and> ((\<forall>r. page_size (up 0 r) = Some 0)
            \<longrightarrow> length (fst (fetchMastodonPosts tab up)) = 1 \<and> snd (fetchMastodonPosts tab up) = Inr [])"
proof -
  let ?pat = "nostrSearchPatterns ! nat tab"
  let ?q = "searchQuery ?pat"
  let ?reqs = "fst (fetchMastodonPosts tab up)"
  have idx: "js_index nostrSearchPatterns tab = Some ?pat"
    using js_index_patterns_in_range [OF tab] .
  have reqs: "?reqs = fst (pages_loop up ?pat ?q 0 None [])"
    using fetchMastodonPosts_requests [OF idx] .
  have c1: "length ?reqs \<le> 10"
    using pages_loop_length [of up ?pat ?q 0 None "[]"] reqs by (simp add: maxPages_def)
  have first: "?reqs \<noteq> [] \<and> ?reqs ! 0 = search_params ?q None"
    using pages_loop_first [of 0 up ?pat ?q None "[]"] reqs by (simp add: maxPages_def)
  have c2: "?reqs \<noteq> []" using first by simp
  have c3: "\<forall>r\<in>set ?reqs. rq_limit r = 40 \<and> rq_type r = ''statuses'' \<and> rq_q r = ?q"
    using pages_loop_requests [of _ up ?pat ?q 0 None "[]"] reqs by (simp add: postsPerPage_def)
  have c4: "rq_max_id (?reqs ! 0) = None"
    using first by (simp add: search_params_def max_id_param_def)
  have c5: "\<forall>k. Suc k < length ?reqs \<longrightarrow>
          (\<exists>code statuses.
              response_at tab up k = Response code (Statuses statuses)
              \<and> response_ok code \<and> 40 \<le> length statuses
              \<and> rq_max_id (?reqs ! Suc k) = max_id_param (Some (st_id (last statuses)))
              \<and> (st_id (last statuses) \<noteq> [] \<longrightarrow>
                    rq_max_id (?reqs ! Suc k) = Some (st_id (last statuses))))"
  proof (intro allI impI)
    fix k assume k: "Suc k < length ?reqs"
    then have "Suc k < length (fst (pages_loop up ?pat ?q 0 None []))" using reqs by simp
    from pages_loop_cursor [OF this] obtain code sts where
      r: "up k (fst (pages_loop up ?pat ?q 0 None []) ! k) = Response code (Statuses sts)"
        "response_ok code" "postsPerPage \<le> length sts"
        "rq_max_id (fst (pages_loop up ?pat ?q 0 None []) ! Suc k) = max_id_param (Some (st_id (last sts)))"
      by auto
    have "response_at tab up k = Response code (Statuses sts)"
      using r(1) reqs by (simp add: response_at_def)
    moreover have "rq_max_id (?reqs ! Suc k) = max_id_param (Some (st_id (last sts)))"
      using r(4) reqs by simp
    ultimately show "\<exists>code statuses.
              response_at tab up k = Response code (Statuses statuses)
              \<and> response_ok code \<and> 40 \<le> length statuses
              \<and> rq_max_id (?reqs ! Suc k) = max_id_param (Some (st_id (last statuses)))
              \<and> (st_id (last statuses) \<noteq> [] \<longrightarrow>
                    rq_max_id (?reqs ! Suc k) = Some (st_id (last statuses)))"
      using r(2,3) by (auto simp: postsPerPage_def max_id_param_Some)
  qed
  have c6: "\<forall>k n. k < length ?reqs \<and> page_size (response_at tab up k) = Some n \<and> n < 40
            \<longrightarrow> length ?reqs = Suc k"
  proof (intro allI impI)
    fix k n assume a: "k < length ?reqs \<and> page_size (response_at tab up k) = Some n \<and> n < 40"
    then have "\<not> page_continues (response_at tab up k)" by (simp add: page_continues_size)
    then have "\<not> page_continues (up (0 + k) (fst (pages_loop up ?pat ?q 0 None []) ! k))"
      using reqs by (simp add: response_at_def)
    moreover have "k < length (fst (pages_loop up ?pat ?q 0 None []))" using a reqs by simp
    ultimately have "length (fst (pages_loop up ?pat ?q 0 None [])) = Suc k"
      by (rule pages_loop_stops [rotated])
    then show "length ?reqs = Suc k" using reqs by simp
  qed
  have c7: "(\<forall>k r. k < 9 \<longrightarrow> page_size (up k r) = Some 40) \<and> (\<forall>r. page_size (up 9 r) = Some 5)
            \<longrightarrow> length ?reqs = 10"
  proof
    assume a: "(\<forall>k r. k < 9 \<longrightarrow> page_size (up k r) = Some 40) \<and> (\<forall>r. page_size (up 9 r) = Some 5)"
    have "length ?reqs = Suc 9"
    proof (rule fetchMastodonPosts_full_then_short [OF tab])
      fix j r assume "j < (9::nat)"
      then show "page_continues (up j r)" using a by (simp add: page_continues_size)
    next
      fix r show "\<not> page_continues (up 9 r)" using a by (simp add: page_continues_size)
    qed simp
    then show "length ?reqs = 10" by simp
  qed
  have c8: "(\<forall>r. page_size (up 0 r) = Some 0)
            \<longrightarrow> length ?reqs = 1 \<and> snd (fetchMastodonPosts tab up) = Inr []"
  proof
    assume a: "\<forall>r. page_size (up 0 r) = Some 0"
    have len: "length ?reqs = Suc 0"
    proof (rule fetchMastodonPosts_full_then_short [OF tab])
      fix r show "\<not> page_continues (up 0 r)" using a by (simp add: page_continues_size)
    qed simp_all
    let ?resp = "up 0 (search_params ?q None)"
    have "page_size ?resp = Some 0" using a by simp
    then obtain code where resp: "?resp = Response code (Statuses [])" "response_ok code"
      by (auto simp: page_size_def split: search_response.splits search_body.splits if_splits)
    then have "page_step ?pat [] ?resp = Break []" by (simp add: page_step_def)
    then have "pages_loop up ?pat ?q 0 None [] = ([search_params ?q None], Inr [])"
      by (intro pages_loop_Break) (simp_all add: maxPages_def)
    then have "snd (fetchMastodonPosts tab up) = Inr []"
      using idx by (simp add: fetchMastodonPosts_def)
    with len show "length ?reqs = 1 \<and> snd (fetchMastodonPosts tab up) = Inr []" by simp
  qed
  from c1 c2 c3 c4 c5 c6 c7 c8 show ?thesis by blast
qed

theorem mastodon_pagination_witness:
  "length (fst (fetchMastodonPosts 1 nine_full_then_five)) = 10
   \<and> rq_max_id (fst (fetchMastodonPosts 1 nine_full_then_five) ! 0) = None
   \<and> rq_max_id (fst (fetchMastodonPosts 1 nine_full_then_five) ! 1) = Some ''110''
   \<and> length (fst (fetchMastodonPosts 1 empty_upstream)) = 1
   \<and> snd (fetchMastodonPosts 1 empty_upstream) = Inr []"
proof -
  have tab: "(0::int) \<le> 1" "(1::int) < 7" by simp_all
  note nine = mastodon_pagination [OF tab, of nine_full_then_five]
  note none = mastodon_pagination [OF tab, of empty_upstream]
  have h9: "(\<forall>k r. k < 9 \<longrightarrow> page_size (nine_full_then_five k r) = Some 40)
            \<and> (\<forall>r. page_size (nine_full_then_five 9 r) = Some 5)"
    by (simp add: nine_full_then_five_def page_size_def response_ok_def)
  have h0: "\<forall>r. page_size (empty_upstream 0 r) = Some 0"
    by (simp add: empty_upstream_def page_size_def response_ok_def)
  have len: "length (fst (fetchMastodonPosts 1 nine_full_then_five)) = 10" using nine h9 by blast
  have first: "rq_max_id (fst (fetchMastodonPosts 1 nine_full_then_five) ! 0) = None" using nine by blast
  have "Suc 0 < length (fst (fetchMastodonPosts 1 nine_full_then_five))" using len by simp
  with nine obtain code statuses where
    r: "response_at 1 nine_full_then_five 0 = Response code (Statuses statuses)"
       "st_id (last statuses) \<noteq> [] \<longrightarrow>
          rq_max_id (fst (fetchMastodonPosts 1 nine_full_then_five) ! Suc 0) = Some (st_id (last statuses))"
    by blast
  from r(1) have "statuses = replicate 40 gov_status"
    by (simp add: response_at_def nine_full_then_five_def)
  then have "st_id (last statuses) = ''110''" by (simp add: gov_status_def)
  with r(2) have second: "rq_max_id (fst (fetchMastodonPosts 1 nine_full_then_five) ! 1) = Some ''110''" by simp
  from none h0 have "length (fst (fetchMastodonPosts 1 empty_upstream)) = 1
      \<and> snd (fetchMastodonPosts 1 empty_upstream) = Inr []" by blast
  with len first second show ?thesis by simp
qed

text \<open>
  Claim C1, as the code has it. Every post returned by \<^verbatim>\<open>fetchNostrPosts\<close> has a content
  that matches the pattern of the tab: the list a call collects and stores, on whatever
  cache it completes; the result of a call on any cache reached from the empty one by
  completed calls, however the requests overlap; and the result of a call on any cache
  holding only classified lists, a property every call keeps. So has every post of a list
  that \<^verbatim>\<open>fetchMastodonPosts\<close> resolves to. \<^verbatim>\<open>fetchBlueskyPosts\<close> applies no pattern: when the
  token is granted and the upstream answers, it returns one post for every item of the
  feed, in order.
\<close>

theorem fetched_posts_classified:
  "list_all (\<lambda>p. tab_matches tab (np_content p)) (nostr_result (nostr_complete tab w c0))
   \<and> cache_classified (nostr_completions fin Map.empty)
   \<and> list_all (\<lambda>p. tab_matches tab (np_content p))
         (nostr_result (fetchNostrPosts tab now w (nostr_completions fin Map.empty)))
   \<and> (cache_classified c \<longrightarrow>
         list_all (\<lambda>p. tab_matches tab (np_content p)) (nostr_result (fetchNostrPosts tab now w c))
         \<and> cache_classified (nostr_cache (fetchNostrPosts tab now w c)))
   \<and> (\<forall>posts. snd (fetchMastodonPosts tab up) = Inr posts \<longrightarrow>
         list_all (\<lambda>p. tab_matches tab (mp_content p)) posts)
   \<and> (fst (getToken now b) \<and> login_ok bw
        \<and> getFeed bw (js_index feedLinks tab) 50 lang = Some items \<and> process_items items = Some ps
       \<longrightarrow> fst (fetchBlueskyPosts tab lang now bw b) = ps \<and> map bp_item ps = items)"
proof -
  have reach: "cache_classified (nostr_completions fin Map.empty)"
    using nostr_completions_classified [OF cache_classified_empty] .
  have n0: "list_all (\<lambda>p. tab_matches tab (np_content p)) (nostr_result (nostr_complete tab w c0))"
    using nostr_complete_classified [OF cache_classified_empty, of tab w c0] by blast
  have n1: "list_all (\<lambda>p. tab_matches tab (np_content p))
         (nostr_result (fetchNostrPosts tab now w (nostr_completions fin Map.empty)))"
    using fetchNostrPosts_classified [OF reach] by blast
  have n2: "cache_classified c \<longrightarrow>
         list_all (\<lambda>p. tab_matches tab (np_content p)) (nostr_result (fetchNostrPosts tab now w c))
         \<and> cache_classified (nostr_cache (fetchNostrPosts tab now w c))"
    using fetchNostrPosts_classified by blast
  have m: "\<forall>posts. snd (fetchMastodonPosts tab up) = Inr posts \<longrightarrow>
         list_all (\<lambda>p. tab_matches tab (mp_content p)) posts"
    using fetchMastodonPosts_classified by blast
  have bl: "fst (getToken now b) \<and> login_ok bw
        \<and> getFeed bw (js_index feedLinks tab) 50 lang = Some items \<and> process_items items = Some ps
       \<longrightarrow> fst (fetchBlueskyPosts tab lang now bw b) = ps \<and> map bp_item ps = items"
    using fetchBlueskyPosts_unfiltered by blast
  from n0 reach n1 n2 m bl show ?thesis by blast
qed

lemma open_feed_result:
  "fst (fetchBlueskyPosts 1 ''en-US'' 0 open_feed (initialBucket 0)) =
     [\<lparr>bp_item = plain_item, bp_markdown = ''hello''\<rparr>]"
  by (simp add: fetchBlueskyPosts_def getToken_def initialBucket_def open_feed_def plain_item_def)

text \<open>
  The claim as written fails for Bluesky: a feed item with the text \<open>hello\<close> is returned
  for tab 1, though neither its text nor its markdown matches the pattern of the tab.
\<close>

theorem bluesky_post_not_classified:
  "\<not> list_all (\<lambda>p. tab_matches 1 (item_text (bp_item p)) \<or> tab_matches 1 (bp_markdown p))
        (fst (fetchBlueskyPosts 1 ''en-US'' 0 open_feed (initialBucket 0)))"
  using hello_no_match by (simp add: open_feed_result plain_item_def)

lemma two_events_collected:
  "foldl (on_event 3) [] [chatter_event, science_event] = [science_event]"
  using chatter_no_match science_match by (simp add: on_event_tab_matches)

theorem fetched_posts_classified_witness:
  "map np_content (nostr_result (fetchNostrPosts 3 0 (relay_world [chatter_event, science_event] 10000) Map.empty))
      = [''new paper on arXiv.org today'']
   \<and> list_all (\<lambda>p. tab_matches 3 (np_content p))
        (nostr_result (fetchNostrPosts 3 0 (relay_world [chatter_event, science_event] 10000) Map.empty))
   \<and> fst (fetchBlueskyPosts 1 ''en-US'' 0 open_feed (initialBucket 0)) = [\<lparr>bp_item = plain_item, bp_markdown = ''hello''\<rparr>]"
proof -
  let ?w = "relay_world [chatter_event, science_event] 10000"
  note t = fetched_posts_classified [where tab = 3 and now = 0 and w = ?w and c = Map.empty]
  have r: "map np_content (nostr_result (fetchNostrPosts 3 0 ?w Map.empty)) = [''new paper on arXiv.org today'']"
    using two_events_collected
    by (simp add: fetchNostrPosts_def cache_get_def relay_world_def science_event_def)
  have ok: "list_all (\<lambda>p. tab_matches 3 (np_content p)) (nostr_result (fetchNostrPosts 3 0 ?w Map.empty))"
    using t cache_classified_empty by blast
  from r ok open_feed_result show ?thesis by simp
qed

text \<open>
  Claim C2 fails on the code. With \<^verbatim>\<open>activeTab = 7\<close>, one past the last pattern,
  \<^verbatim>\<open>fetchMastodonPosts\<close> raises a TypeError at \<^verbatim>\<open>searchPattern.source\<close>, before its
  \<^verbatim>\<open>try\<close>: the call rejects instead of resolving to a list.
\<close>

theorem mastodon_rejects_without_pattern:
  "snd (fetchMastodonPosts 7 upstream) = Inl TypeError"
  by (simp add: fetchMastodonPosts_no_pattern js_index_patterns_out_of_range)

lemma fetchMastodonPosts_resolves_in_range:
  "0 \<le> tab \<Longrightarrow> tab < 7 \<Longrightarrow> \<exists>posts. snd (fetchMastodonPosts tab up) = Inr posts"
  using fetchMastodonPosts_resolves js_index_patterns_in_range by blast

text \<open>
  Claim C9. When \<^verbatim>\<open>activeTab\<close> parses to an integer of 7 or more, the route answers with
  the 500 error envelope (carrying the TypeError of the Mastodon fetcher), not with the
  three lists.
\<close>

theorem feed_500_without_pattern:
  "7 \<le> n \<Longrightarrow> fst (feedRoute (Some n) languages w s) = Error500 TypeError"
proof -
  assume n: "7 \<le> n"
  then have "fetchMastodonPosts n (mastodon w) = ([], Inl TypeError)"
    by (simp add: fetchMastodonPosts_no_pattern js_index_patterns_out_of_range)
  with n show ?thesis
    by (simp add: feedRoute_def Let_def split: prod.splits)
qed

theorem feed_500_without_pattern_witness:
  "fst (feedRoute (Some 7) None example_world initial_state) = Error500 TypeError
   \<and> (\<exists>b n m. fst (feedRoute (Some 6) None example_world initial_state) = Feed200 b n m)"
proof -
  have "\<exists>posts. snd (fetchMastodonPosts 6 (mastodon example_world)) = Inr posts"
    by (rule fetchMastodonPosts_resolves_in_range) simp_all
  then have "\<exists>b n m. fst (feedRoute (Some 6) None example_world initial_state) = Feed200 b n m"
    by (auto simp: feedRoute_def Let_def split: prod.splits)
  with feed_500_without_pattern [of 7 None example_world initial_state] show ?thesis by simp
qed

lemma searchQuery_of_tabs:
  "map searchQuery nostrSearchPatterns = map js_src
    [''.gov%/ OR bea.gov OR stlouisfed.org OR worldbank.org OR bls.gov OR imf.org OR oecd.org OR europa.eu%/eurostat OR unstats.un.org OR arxiv.org OR nih.gov OR nasa.gov OR science.org OR cell.com OR pnas.org'',
     ''.gov%/'',
     ''bea.gov OR stlouisfed.org OR worldbank.org OR bls.gov OR imf.org OR oecd.org OR europa.eu%/eurostat OR unstats.un.org'',
     ''arxiv.org OR nih.gov OR nasa.gov OR science.org OR cell.com OR pnas.org'',
     ''imdb.com OR rottentomatoes.com OR netflix.com OR hulu.com OR amazon.com%/gp%/video%/ OR play.max.com'',
     ''podcasts.apple.com OR open.spotify.com%/episode%/ OR open.spotify.com%/show%/'',
     ''spotify.com%/artist OR spotify.com%/track OR spotify.com%/album OR music.apple.com OR soundcloud.com'']"
  by code_simp

text \<open>
  Claim C7 fails on the code. For tab 1, whose pattern source is \<^verbatim>\<open>\.gov\/\<close>, the
  search query is \<^verbatim>\<open>.gov\/\<close>: the escaped dot is unescaped, the escaped slash is not,
  and a backslash remains in the query.
\<close>

theorem searchQuery_keeps_escaped_slash:
  "map_option searchQuery (js_index nostrSearchPatterns 1)
     = Some [CHR ''.'', CHR ''g'', CHR ''o'', CHR ''v'', BSLASH, CHR ''/'']"
  by (simp add: js_index_def nostrSearchPatterns_def js_src_def searchQuery_def)

lemma replace_bars_no_bar: "CHR ''|'' \<notin> set (replace_bars s)"
  by (induction s) auto

lemma searchQuery_no_bar: "CHR ''|'' \<notin> set (searchQuery source)"
  by (simp add: searchQuery_def replace_bars_no_bar)

end
